theory Spec2Isabelle
  imports Complex_Main "HOL-Library.Word"
begin

unbundle bit_operations_syntax

section \<open>JavaScript values used by the zsync client\<close>

text \<open>
  The program is TypeScript. A \<^verbatim>\<open>number\<close> that only ever holds an integer is an
  \<^typ>\<open>int\<close>; the two places where the source divides with \<^verbatim>\<open>/\<close> and keeps a
  fraction use \<^typ>\<open>rat\<close> (the divisor is a power of two, so the quotient is exact).
  A \<^verbatim>\<open>Uint8Array\<close> is a list of bytes. The bit operators of JavaScript work on the
  32-bit two's complement value of their operands, which is written out here.
\<close>

type_synonym byte = "8 word"

definition to_int32 :: "int \<Rightarrow> int" where
  "to_int32 x = (x + 2 ^ 31) mod 2 ^ 32 - 2 ^ 31"

definition to_uint32 :: "int \<Rightarrow> int" where
  "to_uint32 x = x mod 2 ^ 32"

definition js_and :: "int \<Rightarrow> int \<Rightarrow> int" where
  "js_and x y = to_int32 x AND to_int32 y"

definition js_or :: "int \<Rightarrow> int \<Rightarrow> int" where
  "js_or x y = to_int32 x OR to_int32 y"

definition js_xor :: "int \<Rightarrow> int \<Rightarrow> int" where
  "js_xor x y = to_int32 x XOR to_int32 y"

definition js_shl :: "int \<Rightarrow> int \<Rightarrow> int" where
  "js_shl x n = to_int32 (to_int32 x * 2 ^ nat (n mod 32))"

definition js_sar :: "int \<Rightarrow> int \<Rightarrow> int" where
  "js_sar x n = to_int32 x div 2 ^ nat (n mod 32)"

definition js_shr :: "int \<Rightarrow> int \<Rightarrow> int" where
  "js_shr x n = to_uint32 x div 2 ^ nat (n mod 32)"

text \<open>Truncation of a fraction towards zero, as \<^verbatim>\<open>ToInt32\<close> does before it wraps.\<close>

definition js_trunc :: "rat \<Rightarrow> int" where
  "js_trunc q = (if 0 \<le> q then \<lfloor>q\<rfloor> else \<lceil>q\<rceil>)"

text \<open>
  The remainder operator \<^verbatim>\<open>%\<close> takes the sign of the dividend. (A zero divisor gives
  NaN in JavaScript; every caller below has a positive block size.)
\<close>

definition js_rem :: "int \<Rightarrow> int \<Rightarrow> int" where
  "js_rem x y = sgn x * (\<bar>x\<bar> mod \<bar>y\<bar>)"

text \<open>
  Reading an array outside its bounds gives \<^verbatim>\<open>undefined\<close>, here \<^const>\<open>None\<close>;
  an ordering or strict equality test against \<^verbatim>\<open>undefined\<close> is false.
\<close>

definition js_at :: "'a list \<Rightarrow> int \<Rightarrow> 'a option" where
  "js_at xs i = (if 0 \<le> i \<and> nat i < length xs then Some (xs ! nat i) else None)"

fun js_gt :: "int \<Rightarrow> int option \<Rightarrow> bool" where
  "js_gt x None = False"
| "js_gt x (Some y) = (x > y)"

fun js_lt :: "int \<Rightarrow> int option \<Rightarrow> bool" where
  "js_lt x None = False"
| "js_lt x (Some y) = (x < y)"

fun js_seq :: "int option \<Rightarrow> int \<Rightarrow> bool" where
  "js_seq None x = False"
| "js_seq (Some y) x = (y = x)"

text \<open>
  \<^verbatim>\<open>subarray(begin, end)\<close> of a typed array: a negative index counts from the end,
  and both are clamped to the array.
\<close>

definition js_clamp :: "nat \<Rightarrow> int \<Rightarrow> nat" where
  "js_clamp n i = (if i < 0 then nat (max (int n + i) 0) else min (nat i) n)"

definition subarray :: "'a list \<Rightarrow> int \<Rightarrow> int \<Rightarrow> 'a list" where
  "subarray xs b e =
     (let b' = js_clamp (length xs) b; e' = js_clamp (length xs) e
      in take (e' - b') (drop b' xs))"

definition subarray_from :: "'a list \<Rightarrow> int \<Rightarrow> 'a list" where
  "subarray_from xs b = drop (js_clamp (length xs) b) xs"

section \<open>The state of the rsync engine (internal.ts)\<close>

record rsum =
  a :: int
  b :: int

text \<open>
  A \<^verbatim>\<open>hash_entry\<close> object is one element of the stationary array \<^verbatim>\<open>blockhashes\<close>;
  a reference to such an object (\<^verbatim>\<open>next\<close>, \<^verbatim>\<open>rover\<close>, \<^verbatim>\<open>next_match\<close>, the bucket
  heads of \<^verbatim>\<open>rsum_hash\<close>) is the index of the object in that array, which is what
  \<^verbatim>\<open>get_HE_blockid\<close> recovers with \<^verbatim>\<open>indexOf\<close>.
\<close>

record hash_entry =
  "next" :: "nat option"
  r :: rsum
  checksum :: "byte list option"

record stats =
  hashhit :: int
  weakhit :: int
  stronghit :: int
  checksummed :: int

text \<open>
  The field \<open>fd\<close> is the open handle on the scratch file; its value is the content of
  that file (\<^const>\<open>None\<close> for a null handle).
\<close>

record rcksum_state =
  cur_r :: "rsum \<times> rsum"
  blocks :: int
  blocksize :: int
  blockshift :: int
  rsum_a_mask :: int
  rsum_bits :: int
  checksum_bytes :: int
  seq_matches :: int
  "context" :: int
  skip :: int
  rover :: "nat option"
  next_match :: "nat option"
  next_known :: int
  hashmask :: int
  blockhashes :: "hash_entry list"
  rsum_hash :: "nat option list option"
  bithash :: "byte list option"
  bithashmask :: int
  numranges :: int
  ranges :: "int list"
  gotblocks :: int
  stats :: stats
  filename :: "string option"
  fd :: "byte list option"

datatype error =
    NoFileHandle
  | RsumHashNull
  | GetHEBlockidFailed
  | TypeError
  | OutOfRange
  | BadPosition
  | RsNull
  | CurFilenameNull
  | NoSuchFile
  | NoUrls
  | UrlLengthMismatch
  | UndefinedValue

section \<open>Known block ranges (range.ts)\<close>

text \<open>
  \<^verbatim>\<open>range_before_block\<close>: bisection over the \<^verbatim>\<open>numranges\<close> pairs stored flat in
  \<^verbatim>\<open>ranges\<close>. The midpoint \<^verbatim>\<open>(max + min) >> 1\<close> is the floor of the half sum; the
  sum of two array indices stays below \<open>2 ^ 31\<close>, so \<^verbatim>\<open>ToInt32\<close> is left out here.
\<close>

function range_before_block_loop :: "int list \<Rightarrow> int \<Rightarrow> int \<Rightarrow> int \<Rightarrow> int" where
  "range_before_block_loop rg x mn mx =
     (if mn \<le> mx then
        (if js_gt x (js_at rg (2 * ((mx + mn) div 2) + 1))
         then range_before_block_loop rg x ((mx + mn) div 2 + 1) mx
         else if js_lt x (js_at rg (2 * ((mx + mn) div 2)))
         then range_before_block_loop rg x mn ((mx + mn) div 2 - 1)
         else - 1)
      else mn)"
  by pat_completeness auto
termination
  by (relation "measure (\<lambda>(rg, x, mn, mx). nat (mx - mn + 1))") auto

declare range_before_block_loop.simps [simp del]

definition range_before_block :: "rcksum_state \<Rightarrow> int \<Rightarrow> int" where
  "range_before_block rs x = range_before_block_loop (ranges rs) x 0 (numranges rs - 1)"

definition next_known_block :: "rcksum_state \<Rightarrow> int \<Rightarrow> int option" where
  "next_known_block rs x =
     (let r = range_before_block rs x
      in if r = - 1 then Some x
         else if r = numranges rs then Some (blocks rs)
         else js_at (ranges rs) (2 * r))"

text \<open>\<^verbatim>\<open>splice(i, n)\<close> and \<^verbatim>\<open>splice(i, 0, v, w)\<close> for a start index \<open>i \<ge> 0\<close>.\<close>

definition splice_del :: "'a list \<Rightarrow> int \<Rightarrow> nat \<Rightarrow> 'a list" where
  "splice_del xs i n = take (nat i) xs @ drop (nat i + n) xs"

definition splice_ins :: "'a list \<Rightarrow> int \<Rightarrow> 'a list \<Rightarrow> 'a list" where
  "splice_ins xs i ys = take (nat i) xs @ ys @ drop (nat i) xs"

text \<open>
  \<^verbatim>\<open>add_to_ranges\<close>. Each assignment to an element of \<^verbatim>\<open>ranges\<close> is guarded by a
  strict equality test on an element read from the array, so it is an update in place.
  In the merge case the value stored is \<^verbatim>\<open>ranges[2 * r + 1]\<close> as read (it is
  defined whenever the pair \<open>r\<close> is).
\<close>

definition add_to_ranges :: "rcksum_state \<Rightarrow> int \<Rightarrow> rcksum_state" where
  "add_to_ranges rs x =
     (let r = range_before_block rs x
      in if r = - 1 then rs
         else
           (let rs1 = rs\<lparr>gotblocks := gotblocks rs + 1\<rparr>; rg = ranges rs
            in if r > 0 \<and> r < numranges rs
                  \<and> js_seq (js_at rg (2 * (r - 1) + 1)) (x - 1)
                  \<and> js_seq (js_at rg (2 * r)) (x + 1)
               then rs1\<lparr>ranges :=
                           splice_del
                             (case js_at rg (2 * r + 1) of
                                Some h \<Rightarrow> rg[nat (2 * (r - 1) + 1) := h]
                              | None \<Rightarrow> rg) (2 * r) 2,
                        numranges := numranges rs - 1\<rparr>
               else if r > 0 \<and> numranges rs \<noteq> 0
                       \<and> js_seq (js_at rg (2 * (r - 1) + 1)) (x - 1)
               then rs1\<lparr>ranges := rg[nat (2 * (r - 1) + 1) := x]\<rparr>
               else if r < numranges rs \<and> js_seq (js_at rg (2 * r)) (x + 1)
               then rs1\<lparr>ranges := rg[nat (2 * r) := x]\<rparr>
               else rs1\<lparr>ranges := splice_ins rg (2 * r) [x, x],
                        numranges := numranges rs + 1\<rparr>))"


definition rcksum_blocks_todo_loop :: "int list \<Rightarrow> nat \<Rightarrow> error + int" where
  "rcksum_blocks_todo_loop rg i =
     (case (js_at rg (2 * int i + 1), js_at rg (2 * int i)) of
        (Some h, Some l) \<Rightarrow> Inr (1 + h - l)
      | _ \<Rightarrow> Inl UndefinedValue)"

text \<open>
  \<^verbatim>\<open>rcksum_blocks_todo\<close>. Arithmetic on an element missing from \<^verbatim>\<open>ranges\<close> would
  give NaN, which the model reports as \<^const>\<open>UndefinedValue\<close>.
\<close>

fun rcksum_blocks_todo_from :: "int list \<Rightarrow> nat list \<Rightarrow> int \<Rightarrow> error + int" where
  "rcksum_blocks_todo_from rg [] n = Inr n"
| "rcksum_blocks_todo_from rg (i # rest) n =
     (case rcksum_blocks_todo_loop rg i of
        Inl e \<Rightarrow> Inl e
      | Inr d \<Rightarrow> rcksum_blocks_todo_from rg rest (n - d))"

definition rcksum_blocks_todo :: "rcksum_state \<Rightarrow> error + int" where
  "rcksum_blocks_todo rs =
     rcksum_blocks_todo_from (ranges rs) [0..<nat (numranges rs)] (blocks rs)"

text \<open>
  \<^verbatim>\<open>rcksum_needed_block_ranges\<close>. The local array \<^verbatim>\<open>r\<close> holds \<open>2 * n\<close> numbers
  throughout the loop, so \<^verbatim>\<open>r[2 * n]\<close> and \<^verbatim>\<open>r[2 * n + 1]\<close> are appended and
  \<^verbatim>\<open>r[2 * n - 1]\<close> is its last element. The function returns the array \<^verbatim>\<open>r\<close>
  itself: the count \<^verbatim>\<open>n\<close>, set to 0 at the end when nothing is needed, is not
  returned (the C original passed it back through a pointer).
\<close>

fun needed_block_ranges_loop ::
  "int list \<Rightarrow> int \<Rightarrow> nat list \<Rightarrow> int list \<Rightarrow> nat \<Rightarrow> error + (int list \<times> nat)" where
  "needed_block_ranges_loop rg from [] rr n = Inr (rr, n)"
| "needed_block_ranges_loop rg from (i # rest) rr n =
     (case (js_at rg (2 * int i), js_at rg (2 * int i + 1), js_at rr (2 * int n - 1)) of
        (Some lo, Some hi, Some tp) \<Rightarrow>
          if lo > tp then needed_block_ranges_loop rg from rest rr n
          else if hi < from then needed_block_ranges_loop rg from rest rr n
          else if n = 1 \<and> lo \<le> from
          then needed_block_ranges_loop rg from rest (rr[0 := hi + 1]) n
          else if hi \<ge> tp - 1
          then needed_block_ranges_loop rg from rest (rr[2 * n - 1 := lo]) n
          else needed_block_ranges_loop rg from rest
                 ((rr @ [hi + 1, tp])[2 * n - 1 := lo]) (n + 1)
      | _ \<Rightarrow> Inl UndefinedValue)"

definition rcksum_needed_block_ranges :: "rcksum_state \<Rightarrow> int \<Rightarrow> int \<Rightarrow> error + int list" where
  "rcksum_needed_block_ranges rs from to =
     (let to' = (if to \<ge> blocks rs then blocks rs else to)
      in case needed_block_ranges_loop (ranges rs) from [0..<nat (numranges rs)] [from, to'] 1 of
           Inl e \<Rightarrow> Inl e
         | Inr (rr, n) \<Rightarrow> Inr rr)"

section \<open>Construction and release of the engine state (state.ts)\<close>

definition empty_entry :: hash_entry where
  "empty_entry = \<lparr>next = None, r = \<lparr>a = 0, b = 0\<rparr>, checksum = None\<rparr>"

text \<open>
  \<^verbatim>\<open>rcksum_init\<close>. The name of the temporary file is a parameter; the file is created
  empty. Fields the constructor leaves unset (\<^verbatim>\<open>skip\<close>, \<^verbatim>\<open>rover\<close>,
  \<^verbatim>\<open>next_match\<close>, \<^verbatim>\<open>next_known\<close>, the masks) are \<open>0\<close> or \<^const>\<open>None\<close> here;
  none is read before it is written.
\<close>

definition rcksum_init ::
  "int \<Rightarrow> int \<Rightarrow> int \<Rightarrow> int \<Rightarrow> int \<Rightarrow> string \<Rightarrow> rcksum_state option" where
  "rcksum_init nblocks bsize rsum_bytes cksum_bytes require_consecutive_matches path =
     (if js_and bsize (bsize - 1) = 0 \<and> nblocks \<noteq> 0 then
        Some \<lparr>cur_r = (\<lparr>a = 0, b = 0\<rparr>, \<lparr>a = 0, b = 0\<rparr>),
              blocks = nblocks,
              blocksize = bsize,
              blockshift = (case find (\<lambda>i. bsize = js_shl 1 i) (map int [0..<32]) of
                              Some i \<Rightarrow> i | None \<Rightarrow> 0),
              rsum_a_mask = (if rsum_bytes < 3 then 0 else if rsum_bytes = 3 then 255 else 65535),
              rsum_bits = rsum_bytes * 8,
              checksum_bytes = cksum_bytes,
              seq_matches = require_consecutive_matches,
              context = bsize * require_consecutive_matches,
              skip = 0, rover = None, next_match = None, next_known = 0, hashmask = 0,
              blockhashes = replicate (nat (nblocks + require_consecutive_matches)) empty_entry,
              rsum_hash = None, bithash = None, bithashmask = 0,
              numranges = 0, ranges = [], gotblocks = 0,
              stats = \<lparr>hashhit = 0, weakhit = 0, stronghit = 0, checksummed = 0\<rparr>,
              filename = Some path, fd = Some []\<rparr>
      else None)"

definition rcksum_filename :: "rcksum_state \<Rightarrow> string option \<times> rcksum_state" where
  "rcksum_filename rs = (filename rs, rs\<lparr>filename := None\<rparr>)"

text \<open>
  \<^verbatim>\<open>rcksum_end\<close> closes the handle and unlinks the file unless its name was handed
  to the caller. The result is what is left on disk under that name: the content
  written through the handle, or nothing.
\<close>

definition rcksum_end :: "rcksum_state \<Rightarrow> byte list option" where
  "rcksum_end z = (case filename z of Some p \<Rightarrow> None | None \<Rightarrow> fd z)"

section \<open>The weak-sum hash tables (hash.ts, internal.ts)\<close>

definition rcksum_add_target_block ::
  "rcksum_state \<Rightarrow> int \<Rightarrow> rsum \<Rightarrow> byte list \<Rightarrow> error + rcksum_state" where
  "rcksum_add_target_block z bid rs cs =
     (if bid < blocks z then
        (case js_at (blockhashes z) bid of
           None \<Rightarrow> Inl TypeError
         | Some e \<Rightarrow>
             Inr (z\<lparr>blockhashes :=
                       (blockhashes z)[nat bid :=
                          e\<lparr>checksum := Some cs,
                            r := \<lparr>a = js_and (a rs) (rsum_a_mask z), b = b rs\<rparr>\<rparr>],
                    rsum_hash := (if rsum_hash z \<noteq> None then Some [] else None),
                    bithash := (if rsum_hash z \<noteq> None then None else bithash z)\<rparr>))
      else Inr z)"

text \<open>
  \<^verbatim>\<open>calc_rhash(z, e, ei)\<close>: the array \<^verbatim>\<open>e\<close> is always \<^verbatim>\<open>z.blockhashes\<close>. With one
  sequential match the second operand is read from \<^verbatim>\<open>e[0]\<close>, the first element of
  the array.
\<close>

definition calc_rhash :: "rcksum_state \<Rightarrow> hash_entry list \<Rightarrow> int \<Rightarrow> error + int" where
  "calc_rhash z e ei =
     (case js_at e ei of
        None \<Rightarrow> Inl TypeError
      | Some en \<Rightarrow>
          if seq_matches z > 1 then
            (case js_at e (ei + 1) of
               None \<Rightarrow> Inl TypeError
             | Some en1 \<Rightarrow> Inr (js_xor (b (r en)) (js_shl (b (r en1)) 3)))
          else
            (case js_at e 0 of
               None \<Rightarrow> Inl TypeError
             | Some e0 \<Rightarrow> Inr (js_xor (b (r en)) (js_shl (js_and (a (r e0)) (rsum_a_mask z)) 3))))"

definition get_HE_blockid :: "rcksum_state \<Rightarrow> nat \<Rightarrow> error + int" where
  "get_HE_blockid z e = (if e < length (blockhashes z) then Inr (int e) else Inl GetHEBlockidFailed)"

function build_hash_size :: "int \<Rightarrow> int \<Rightarrow> int" where
  "build_hash_size nblocks i =
     (if js_shl 2 (i - 1) > nblocks \<and> i > 4 then build_hash_size nblocks (i - 1) else i)"
  by pat_completeness auto
termination
  by (relation "measure (\<lambda>(nblocks, i). nat i)") auto

declare build_hash_size.simps [simp del]

text \<open>
  One round of the filling loop of \<^verbatim>\<open>build_hash\<close>, for the block \<open>bid\<close>. A typed
  array ignores a store outside its bounds and reads \<^verbatim>\<open>undefined\<close> there, which
  \<^verbatim>\<open>|\<close> takes as 0.
\<close>

definition build_hash_step :: "rcksum_state \<Rightarrow> nat \<Rightarrow> error + rcksum_state" where
  "build_hash_step z bid =
     (case calc_rhash z (blockhashes z) (int bid) of
        Inl e \<Rightarrow> Inl e
      | Inr h \<Rightarrow>
         (case (js_at (blockhashes z) (int bid), rsum_hash z, bithash z) of
            (Some e, Some tbl, Some bits) \<Rightarrow>
              (let slot = js_and h (hashmask z);
                   bi = js_sar (js_and h (bithashmask z)) 3;
                   old = (case js_at bits bi of Some v \<Rightarrow> uint v | None \<Rightarrow> 0)
               in Inr (z\<lparr>blockhashes :=
                            (blockhashes z)[bid := e\<lparr>next := (case js_at tbl slot of
                                                               Some p \<Rightarrow> p | None \<Rightarrow> None)\<rparr>],
                         rsum_hash := Some (tbl[nat slot := Some bid]),
                         bithash := Some (bits[nat bi :=
                                       word_of_int (js_or old (js_shl 1 (js_and h 7)))])\<rparr>))
          | _ \<Rightarrow> Inl TypeError))"

fun build_hash_loop :: "nat \<Rightarrow> rcksum_state \<Rightarrow> error + rcksum_state" where
  "build_hash_loop 0 z = Inr z"
| "build_hash_loop (Suc bid) z =
     (case build_hash_step z bid of
        Inl e \<Rightarrow> Inl e
      | Inr z' \<Rightarrow> build_hash_loop bid z')"

definition build_hash :: "rcksum_state \<Rightarrow> error + rcksum_state" where
  "build_hash z =
     (let i = build_hash_size (blocks z) 16;
          hm = js_shl 2 i - 1;
          bm = js_shl 2 (i + 3) - 1
      in build_hash_loop (nat (blocks z))
           (z\<lparr>hashmask := hm,
              rsum_hash := Some (replicate (nat (hm + 1)) None),
              bithashmask := bm,
              bithash := Some (replicate (nat (bm + 1)) 0)\<rparr>))"

text \<open>
  \<^verbatim>\<open>remove_block_from_hash\<close>. The loop variable \<^verbatim>\<open>p\<close> is a local reference that
  walks the chain; \<^verbatim>\<open>p = p.next\<close> moves it and stores nothing in the table or in an
  entry. The walk may not end on a cyclic chain, so its result is an \<^typ>\<open>'a option\<close>.
\<close>

partial_function (option) remove_walk :: "hash_entry list \<Rightarrow> nat \<Rightarrow> nat option \<Rightarrow> (error + bool) option" where
  "remove_walk bh t p =
     (case p of
        None \<Rightarrow> Some (Inr False)
      | Some pe \<Rightarrow>
          if pe = t then Some (Inr True)
          else if pe < length bh then remove_walk bh t (next (bh ! pe))
          else Some (Inl TypeError))"

definition remove_block_from_hash :: "rcksum_state \<Rightarrow> int \<Rightarrow> (error + rcksum_state) option" where
  "remove_block_from_hash z bid =
     (case rsum_hash z of
        None \<Rightarrow> Some (Inl RsumHashNull)
      | Some tbl \<Rightarrow>
         (case calc_rhash z (blockhashes z) bid of
            Inl e \<Rightarrow> Some (Inl e)
          | Inr h \<Rightarrow>
             (case remove_walk (blockhashes z) (nat bid)
                     (case js_at tbl (js_and h (hashmask z)) of Some p \<Rightarrow> p | None \<Rightarrow> None) of
                None \<Rightarrow> None
              | Some (Inl e) \<Rightarrow> Some (Inl e)
              | Some (Inr found) \<Rightarrow>
                  Some (Inr (if found \<and> rover z = Some (nat bid)
                             then z\<lparr>rover := next (blockhashes z ! nat bid)\<rparr> else z)))))"


section \<open>Writing and matching blocks (rsum.ts)\<close>

text \<open>
  The MD4 function comes from the library \<^verbatim>\<open>js-md4\<close>; it is a parameter \<open>md4\<close> of
  every function that hashes. \<^verbatim>\<open>rcksum_calc_checksum\<close> returns the whole digest.
\<close>

text \<open>
  \<^verbatim>\<open>rcksum_calc_rsum_block(data, len)\<close>. A byte read beyond the data is
  \<^verbatim>\<open>undefined\<close>; the sums with it are NaN, which \<^verbatim>\<open>& 0xffff\<close> turns into 0. The
  loop runs until \<open>len\<close> is 0 and does not end for a negative \<open>len\<close>.
\<close>

partial_function (option) rcksum_calc_rsum_loop :: "byte list \<Rightarrow> int \<Rightarrow> int \<Rightarrow> rsum \<Rightarrow> rsum option" where
  "rcksum_calc_rsum_loop data i len s =
     (if len \<noteq> 0
      then rcksum_calc_rsum_loop data (i + 1) (len - 1)
             (case js_at data i of
                Some c \<Rightarrow> \<lparr>a = js_and (a s + uint c) 65535,
                           b = js_and (b s + len * uint c) 65535\<rparr>
              | None \<Rightarrow> \<lparr>a = 0, b = 0\<rparr>)
      else Some s)"

definition rcksum_calc_rsum_block :: "byte list \<Rightarrow> int \<Rightarrow> rsum option" where
  "rcksum_calc_rsum_block data len = rcksum_calc_rsum_loop data 0 len \<lparr>a = 0, b = 0\<rparr>"

definition rcksum_calc_checksum :: "(byte list \<Rightarrow> byte list) \<Rightarrow> byte list \<Rightarrow> byte list" where
  "rcksum_calc_checksum md4 data = md4 data"

text \<open>
  A positioned write through the file handle. The file is extended with zero bytes
  when the position lies beyond its end. Node rejects a range outside the buffer;
  a negative position does not address the file and is reported as
  \<^const>\<open>BadPosition\<close>. On success all \<open>len\<close> bytes are written.
\<close>

definition pwrite :: "byte list \<Rightarrow> nat \<Rightarrow> byte list \<Rightarrow> byte list" where
  "pwrite f pos bytes =
     take pos (f @ replicate (pos - length f) 0) @ bytes @ drop (pos + length bytes) f"

definition fd_write :: "byte list \<Rightarrow> byte list \<Rightarrow> int \<Rightarrow> int \<Rightarrow> int \<Rightarrow> error + (byte list \<times> int)" where
  "fd_write f buf off len pos =
     (if off < 0 \<or> len < 0 \<or> off + len > int (length buf) then Inl OutOfRange
      else if pos < 0 then Inl BadPosition
      else Inr (pwrite f (nat pos) (take (nat len) (drop (nat off) buf)), len))"

function write_blocks_write :: "byte list \<Rightarrow> byte list \<Rightarrow> int \<Rightarrow> int \<Rightarrow> int \<Rightarrow> error + byte list" where
  "write_blocks_write f data len offset datap =
     (if len \<noteq> 0 then
        (case fd_write f data datap len offset of
           Inl e \<Rightarrow> Inl e
         | Inr (f', rc) \<Rightarrow>
             if len - rc \<noteq> 0
             then write_blocks_write f' data (len - rc) (offset + rc) (datap + rc)
             else write_blocks_write f' data (len - rc) offset datap)
      else Inr f)"
  by pat_completeness auto
termination
  by (relation "measure (\<lambda>(f, data, len, offset, datap). if len = 0 then 0 else 1)")
     (auto simp: fd_write_def split: if_splits)

declare write_blocks_write.simps [simp del]

function write_blocks_mark :: "rcksum_state \<Rightarrow> int \<Rightarrow> rat \<Rightarrow> (error + rcksum_state) option" where
  "write_blocks_mark z bid bto =
     (if of_int bid \<le> bto then
        (case remove_block_from_hash z bid of
           None \<Rightarrow> None
         | Some (Inl e) \<Rightarrow> Some (Inl e)
         | Some (Inr z1) \<Rightarrow> write_blocks_mark (add_to_ranges z1 bid) (bid + 1) bto)
      else Some (Inr z))"
  by pat_completeness auto
termination
  by (relation "measure (\<lambda>(z, bid, bto). nat (\<lfloor>bto\<rfloor> - bid + 1))") (auto simp: le_floor_iff)

declare write_blocks_mark.simps [simp del]

text \<open>
  \<^verbatim>\<open>write_blocks(z, data, bfrom, bto)\<close>. The upper bound \<open>bto\<close> is a fraction when
  the receive path passes one (see \<open>zsync_receive_data\<close> below); \<^verbatim>\<open><<\<close> truncates
  it.
\<close>

definition write_blocks :: "rcksum_state \<Rightarrow> byte list \<Rightarrow> int \<Rightarrow> rat \<Rightarrow> (error + rcksum_state) option" where
  "write_blocks z data bfrom bto =
     (case fd z of
        None \<Rightarrow> Some (Inl NoFileHandle)
      | Some f \<Rightarrow>
         (case write_blocks_write f data
                 (js_shl (js_trunc (bto - of_int bfrom + 1)) (blockshift z))
                 (js_shl bfrom (blockshift z)) 0 of
            Inl e \<Rightarrow> Some (Inl e)
          | Inr f' \<Rightarrow> write_blocks_mark (z\<lparr>fd := Some f'\<rparr>) bfrom bto))"

text \<open>
  The \<^verbatim>\<open>do \<dots> while\<close> loop of \<^verbatim>\<open>check_checksums_on_hash_chain\<close> for the candidate
  block \<open>bid\<close>. The list \<open>md4sum\<close> holds the digests computed so far for this window
  (\<^verbatim>\<open>done_md4\<close> is its length minus one). \<^verbatim>\<open>areEqual\<close> compares the whole digest
  with the stored checksum, lengths included; on equality \<^verbatim>\<open>ok\<close> becomes false.
  The result is \<^verbatim>\<open>ok\<close>, \<^verbatim>\<open>check_md4\<close>, the digests and the state (its counters).
\<close>

function strong_check ::
  "(byte list \<Rightarrow> byte list) \<Rightarrow> rcksum_state \<Rightarrow> byte list \<Rightarrow> bool \<Rightarrow> int \<Rightarrow> byte list list \<Rightarrow> int
     \<Rightarrow> error + (bool \<times> int \<times> byte list list \<times> rcksum_state)" where
  "strong_check md4 z data onlyone bid md4sum check_md4 =
     (let fresh = check_md4 > int (length md4sum) - 1;
          md4sum' = (if fresh
                     then md4sum @ [rcksum_calc_checksum md4
                                      (subarray data (blocksize z * check_md4)
                                                     (blocksize z * (check_md4 + 1)))]
                     else md4sum);
          z' = (if fresh
                then z\<lparr>stats := (stats z)\<lparr>checksummed := checksummed (stats z) + 1\<rparr>\<rparr>
                else z)
      in case js_at (blockhashes z) (bid + check_md4) of
           None \<Rightarrow> Inl TypeError
         | Some en \<Rightarrow>
            (case js_at md4sum' check_md4 of
               None \<Rightarrow> Inl TypeError
             | Some digest \<Rightarrow>
                 if checksum en = Some digest then Inr (False, check_md4, md4sum', z')
                 else if \<not> onlyone \<and> check_md4 + 1 < seq_matches z
                 then strong_check md4 z' data onlyone bid md4sum' (check_md4 + 1)
                 else Inr (True, check_md4 + 1, md4sum', z')))"
  by pat_completeness auto
termination
  by (relation "measure (\<lambda>(md4, z, data, onlyone, bid, md4sum, check_md4).
                  nat (seq_matches z - check_md4))") auto

declare strong_check.simps [simp del]

text \<open>
  One round of the \<^verbatim>\<open>while (z.rover != null)\<close> loop, for the entry \<open>e\<close> that the rover
  points at: the weak comparison, the strong comparison, and on \<^verbatim>\<open>ok\<close> the writing
  of the blocks. The result is the state, the digests and the number of blocks this
  round added to \<^verbatim>\<open>got_blocks\<close>.
\<close>

definition check_candidate ::
  "(byte list \<Rightarrow> byte list) \<Rightarrow> byte list \<Rightarrow> bool \<Rightarrow> rcksum_state \<Rightarrow> nat \<Rightarrow> byte list list
     \<Rightarrow> (error + (rcksum_state \<times> byte list list \<times> int)) option" where
  "check_candidate md4 data onlyone z e md4sum =
     (case js_at (blockhashes z) (int e) of
        None \<Rightarrow> Some (Inl TypeError)
      | Some en \<Rightarrow>
         (let z1 = z\<lparr>rover := (if onlyone then None else next en),
                     stats := (stats z)\<lparr>hashhit := hashhit (stats z) + 1\<rparr>\<rparr>;
              r0 = fst (cur_r z); r1 = snd (cur_r z)
          in if a (r en) \<noteq> js_and (a r0) (rsum_a_mask z) \<or> b (r en) \<noteq> b r0
             then Some (Inr (z1, md4sum, 0))
             else
              (case get_HE_blockid z1 e of
                 Inl err \<Rightarrow> Some (Inl err)
               | Inr bid \<Rightarrow>
                  (case (if \<not> onlyone \<and> seq_matches z > 1
                         then (case js_at (blockhashes z) (bid + 1) of
                                 None \<Rightarrow> Inl TypeError
                               | Some en1 \<Rightarrow>
                                   Inr (a (r en1) \<noteq> js_and (a r1) (rsum_a_mask z)
                                        \<or> b (r en1) \<noteq> b r1))
                         else Inr False) of
                     Inl err \<Rightarrow> Some (Inl err)
                   | Inr True \<Rightarrow> Some (Inr (z1, md4sum, 0))
                   | Inr False \<Rightarrow>
                      (let z2 = z1\<lparr>stats := (stats z1)\<lparr>weakhit := weakhit (stats z1) + 1\<rparr>\<rparr>
                       in case strong_check md4 z2 data onlyone bid md4sum 0 of
                            Inl err \<Rightarrow> Some (Inl err)
                          | Inr (ok, check_md4, md4sum', z3) \<Rightarrow>
                             if \<not> ok then Some (Inr (z3, md4sum', 0))
                             else
                              (case (if onlyone then Some (next_known z3)
                                     else next_known_block z3 bid) of
                                 None \<Rightarrow> Some (Inl UndefinedValue)
                               | Some nk \<Rightarrow>
                                  (let z4 = z3\<lparr>stats := (stats z3)
                                                \<lparr>stronghit := stronghit (stats z3) + check_md4\<rparr>\<rparr>;
                                       z5 = (if nk > bid + check_md4
                                             then z4\<lparr>next_match :=
                                                       (if nat (bid + check_md4) < length (blockhashes z4)
                                                        then Some (nat (bid + check_md4)) else None),
                                                     next_known := (if onlyone then next_known z4 else nk)\<rparr>
                                             else z4);
                                       num_write_blocks =
                                         (if nk > bid + check_md4 then check_md4 else nk - bid)
                                   in case write_blocks z5 data bid
                                             (of_int (bid + num_write_blocks - 1)) of
                                        None \<Rightarrow> None
                                      | Some (Inl err) \<Rightarrow> Some (Inl err)
                                      | Some (Inr z6) \<Rightarrow>
                                          Some (Inr (z6, md4sum', num_write_blocks)))))))))"

partial_function (option) check_chain ::
  "(byte list \<Rightarrow> byte list) \<Rightarrow> byte list \<Rightarrow> bool \<Rightarrow> rcksum_state \<Rightarrow> byte list list \<Rightarrow> int
     \<Rightarrow> (error + (rcksum_state \<times> int)) option" where
  "check_chain md4 data onlyone z md4sum got_blocks =
     (case rover z of
        None \<Rightarrow> Some (Inr (z, got_blocks))
      | Some e \<Rightarrow>
         (case check_candidate md4 data onlyone z e md4sum of
            None \<Rightarrow> None
          | Some (Inl err) \<Rightarrow> Some (Inl err)
          | Some (Inr (z', md4sum', n)) \<Rightarrow>
              check_chain md4 data onlyone z' md4sum' (got_blocks + n)))"

definition check_checksums_on_hash_chain ::
  "(byte list \<Rightarrow> byte list) \<Rightarrow> rcksum_state \<Rightarrow> nat \<Rightarrow> byte list \<Rightarrow> bool
     \<Rightarrow> (error + (rcksum_state \<times> int)) option" where
  "check_checksums_on_hash_chain md4 z e data onlyone =
     check_chain md4 data onlyone (z\<lparr>next_match := None, rover := Some e\<rparr>) [] 0"

text \<open>
  The hash table lookup of \<^verbatim>\<open>rcksum_submit_source_data\<close> for the current window,
  whose rolling sums are \<^verbatim>\<open>z.r[0]\<close> and \<^verbatim>\<open>z.r[1]\<close>: the hash value, and the head of
  the chain to walk, if any.
\<close>

definition lookup_hash :: "rcksum_state \<Rightarrow> int" where
  "lookup_hash z =
     js_xor (b (fst (cur_r z)))
       (js_shr (js_shl (if seq_matches z > 1 then b (snd (cur_r z))
                        else js_and (a (fst (cur_r z))) (rsum_a_mask z)) 3) 0)"

definition lookup_chain :: "rcksum_state \<Rightarrow> nat option" where
  "lookup_chain z =
     (case (bithash z, rsum_hash z) of
        (Some bits, Some tbl) \<Rightarrow>
          (let h = lookup_hash z
           in if js_and (case js_at bits (js_sar (js_and h (bithashmask z)) 3) of
                           Some v \<Rightarrow> uint v | None \<Rightarrow> 0)
                        (js_shl 1 (js_and h 7)) \<noteq> 0
              then (case js_at tbl (js_and h (hashmask z)) of Some p \<Rightarrow> p | None \<Rightarrow> None)
              else None)
      | _ \<Rightarrow> None)"

text \<open>
  \<^verbatim>\<open>rcksum_submit_blocks\<close>. \<^verbatim>\<open>JSON.stringify\<close> of the two byte arrays gives equal
  strings exactly when the arrays have the same length and bytes; a null checksum
  never compares equal.
\<close>

function submit_blocks_check ::
  "(byte list \<Rightarrow> byte list) \<Rightarrow> rcksum_state \<Rightarrow> byte list \<Rightarrow> int \<Rightarrow> rat \<Rightarrow> int
     \<Rightarrow> (error + (rcksum_state \<times> int)) option" where
  "submit_blocks_check md4 z data bfrom bto x =
     (if of_int x \<le> bto then
        (case js_at (blockhashes z) x of
           None \<Rightarrow> Some (Inl TypeError)
         | Some en \<Rightarrow>
            if Some (subarray (rcksum_calc_checksum md4
                                 (subarray data (js_shl (x - bfrom) (blockshift z))
                                    (js_shl (x - bfrom) (blockshift z) + blocksize z)))
                       0 (checksum_bytes z)) \<noteq> checksum en
            then (if x > bfrom
                  then (case write_blocks z data bfrom (of_int (x - 1)) of
                          None \<Rightarrow> None
                        | Some (Inl e) \<Rightarrow> Some (Inl e)
                        | Some (Inr z') \<Rightarrow> Some (Inr (z', - 1)))
                  else Some (Inr (z, - 1)))
            else submit_blocks_check md4 z data bfrom bto (x + 1))
      else (case write_blocks z data bfrom bto of
              None \<Rightarrow> None
            | Some (Inl e) \<Rightarrow> Some (Inl e)
            | Some (Inr z') \<Rightarrow> Some (Inr (z', 0))))"
  by pat_completeness auto
termination
  by (relation "measure (\<lambda>(md4, z, data, bfrom, bto, x). nat (\<lfloor>bto\<rfloor> - x + 1))")
     (auto simp: le_floor_iff)

declare submit_blocks_check.simps [simp del]

definition rcksum_submit_blocks ::
  "(byte list \<Rightarrow> byte list) \<Rightarrow> rcksum_state \<Rightarrow> byte list \<Rightarrow> int \<Rightarrow> rat
     \<Rightarrow> (error + (rcksum_state \<times> int)) option" where
  "rcksum_submit_blocks md4 z data bfrom bto =
     (case (if rsum_hash z = None then build_hash z else Inr z) of
        Inl e \<Rightarrow> Some (Inl e)
      | Inr z' \<Rightarrow> submit_blocks_check md4 z' data bfrom bto bfrom)"


section \<open>Streams (stdio.ts)\<close>

record FILE =
  f_handle :: "byte list"
  f_position :: int
  f_closed :: bool
  f_size :: int

text \<open>
  \<^verbatim>\<open>fread(buffer, size, count, file, offset)\<close> reads up to \<open>size * count\<close> bytes at the
  stream position into \<open>buffer\<close>, starting at index \<open>offset\<close> of the buffer.
\<close>

definition fread :: "byte list \<Rightarrow> int \<Rightarrow> int \<Rightarrow> FILE \<Rightarrow> int \<Rightarrow> error + (byte list \<times> FILE \<times> rat)" where
  "fread buffer sz count f offset =
     (if offset < 0 \<or> sz * count < 0 \<or> offset + sz * count > int (length buffer)
      then Inl OutOfRange
      else if f_position f < 0 then Inl BadPosition
      else
        (let got = take (nat (sz * count)) (drop (nat (f_position f)) (f_handle f))
         in Inr (take (nat offset) buffer @ got @ drop (nat offset + length got) buffer,
                 f\<lparr>f_position := f_position f + int (length got)\<rparr>,
                 of_int (int (length got)) / of_int sz)))"

section \<open>The session (zsync.ts)\<close>

record zsync_state =
  zs_rs :: "rcksum_state option"
  zs_filelen :: int
  zs_blocks :: int
  zs_blocksize :: int
  zs_checksum :: "string option"
  zs_checksum_method :: string
  zs_url :: "string list"
  zs_nurl :: int
  zs_cur_filename :: "string option"
  zs_filename :: string
  zs_mtime :: int

record zsync_receiver =
  zr_zs :: zsync_state
  zr_url_type :: int
  zr_outbuf :: "byte list"
  zr_outoffset :: int

text \<open>
  Element \<open>i\<close> of a \<^verbatim>\<open>Uint16Array\<close> laid over a byte buffer, in the byte order of
  the host (\<open>le\<close> for a little-endian host).
\<close>

definition uint16_view :: "bool \<Rightarrow> byte list \<Rightarrow> nat \<Rightarrow> int" where
  "uint16_view le buf i =
     (if le then uint (buf ! (2 * i)) + 256 * uint (buf ! (2 * i + 1))
      else 256 * uint (buf ! (2 * i)) + uint (buf ! (2 * i + 1)))"

text \<open>
  The body of the loop of \<^verbatim>\<open>zsync_read_blocksums\<close>: read one record of the checksum
  table and convert the weak sum. Only \<^verbatim>\<open>r.b\<close> has its two bytes swapped.
\<close>

definition read_blocksum :: "bool \<Rightarrow> FILE \<Rightarrow> int \<Rightarrow> int \<Rightarrow> error + (rsum \<times> byte list \<times> FILE)" where
  "read_blocksum le f rsum_bytes cksum_bytes =
     (case fread (replicate 4 0) 1 rsum_bytes f (4 - rsum_bytes) of
        Inl e \<Rightarrow> Inl e
      | Inr (buffer2, f1, n1) \<Rightarrow>
         (case fread (replicate (nat cksum_bytes) 0) 1 cksum_bytes f1 0 of
            Inl e \<Rightarrow> Inl e
          | Inr (cs, f2, n2) \<Rightarrow>
              Inr (\<lparr>a = uint16_view le buffer2 0,
                    b = js_or (js_sar (js_and (uint16_view le buffer2 1) 65280) 8)
                              (js_shl (js_and (uint16_view le buffer2 1) 255) 8)\<rparr>,
                   cs, f2)))"

fun read_blocksums_loop ::
  "bool \<Rightarrow> int \<Rightarrow> int \<Rightarrow> nat list \<Rightarrow> rcksum_state \<Rightarrow> FILE \<Rightarrow> error + (rcksum_state \<times> FILE)" where
  "read_blocksums_loop le rsum_bytes cksum_bytes [] z f = Inr (z, f)"
| "read_blocksums_loop le rsum_bytes cksum_bytes (bid # rest) z f =
     (case read_blocksum le f rsum_bytes cksum_bytes of
        Inl e \<Rightarrow> Inl e
      | Inr (rs, cs, f') \<Rightarrow>
         (case rcksum_add_target_block z (int bid) rs cs of
            Inl e \<Rightarrow> Inl e
          | Inr z' \<Rightarrow> read_blocksums_loop le rsum_bytes cksum_bytes rest z' f'))"

definition zsync_read_blocksums ::
  "bool \<Rightarrow> zsync_state \<Rightarrow> FILE \<Rightarrow> int \<Rightarrow> int \<Rightarrow> int \<Rightarrow> string
     \<Rightarrow> error + (zsync_state \<times> FILE \<times> int)" where
  "zsync_read_blocksums le zs f rsum_bytes cksum_bytes seq path =
     (case rcksum_init (zs_blocks zs) (zs_blocksize zs) rsum_bytes cksum_bytes seq path of
        None \<Rightarrow> Inr (zs\<lparr>zs_rs := None\<rparr>, f, - 1)
      | Some z \<Rightarrow>
         (case read_blocksums_loop le rsum_bytes cksum_bytes [0..<nat (zs_blocks zs)] z f of
            Inl e \<Rightarrow> Inl e
          | Inr (z', f') \<Rightarrow> Inr (zs\<lparr>zs_rs := Some z'\<rparr>, f', 0)))"

definition zsync_cur_filename :: "zsync_state \<Rightarrow> error + (string \<times> zsync_state)" where
  "zsync_cur_filename zs =
     (case zs_cur_filename zs of
        Some p \<Rightarrow> Inr (p, zs)
      | None \<Rightarrow>
         (case zs_rs zs of
            None \<Rightarrow> Inl RsNull
          | Some rs \<Rightarrow>
             (case rcksum_filename rs of
                (None, rs') \<Rightarrow> Inl CurFilenameNull
              | (Some p, rs') \<Rightarrow> Inr (p, zs\<lparr>zs_rs := Some rs', zs_cur_filename := Some p\<rparr>))))"

definition zsync_get_urls :: "zsync_state \<Rightarrow> error + string list" where
  "zsync_get_urls zs =
     (if zs_nurl zs \<noteq> int (length (zs_url zs)) then Inl UrlLengthMismatch else Inr (zs_url zs))"

definition zsync_status :: "zsync_state \<Rightarrow> error + int" where
  "zsync_status zs =
     (case zs_rs zs of
        None \<Rightarrow> Inl RsNull
      | Some rs \<Rightarrow>
         (case rcksum_blocks_todo rs of
            Inl e \<Rightarrow> Inl e
          | Inr todo \<Rightarrow> Inr (if todo = zs_blocks zs then 0 else if todo > 0 then 1 else 2)))"

definition zsync_begin_receive :: "zsync_state \<Rightarrow> int \<Rightarrow> zsync_receiver" where
  "zsync_begin_receive zs url_type =
     \<lparr>zr_zs = zs, zr_url_type = url_type,
      zr_outbuf = replicate (nat (zs_blocksize zs)) 0, zr_outoffset = 0\<rparr>"

text \<open>
  \<^verbatim>\<open>zsync_needed_byte_ranges\<close>: the number of ranges is half the length of the array
  that \<^verbatim>\<open>rcksum_needed_block_ranges\<close> returns.
\<close>

definition zsync_needed_byte_ranges :: "zsync_state \<Rightarrow> error + int list" where
  "zsync_needed_byte_ranges zs =
     (case zs_rs zs of
        None \<Rightarrow> Inl RsNull
      | Some rs \<Rightarrow>
         (case rcksum_needed_block_ranges rs 0 2147483647 of
            Inl e \<Rightarrow> Inl e
          | Inr blrange \<Rightarrow>
              Inr (concat (map (\<lambda>i. [blrange ! (2 * i) * zs_blocksize zs,
                                      blrange ! (2 * i + 1) * zs_blocksize zs - 1])
                             [0..<nat (js_sar (int (length blrange)) 1)]))))"

text \<open>
  \<^verbatim>\<open>zsync_submit_data(zs, buf, offset, blocks)\<close>: \<open>blocks\<close> is the quotient
  \<^verbatim>\<open>len / blocksize\<close> of the caller, a fraction when \<open>len\<close> is not a multiple of
  the block size.
\<close>

definition zsync_submit_data ::
  "(byte list \<Rightarrow> byte list) \<Rightarrow> zsync_state \<Rightarrow> byte list \<Rightarrow> int \<Rightarrow> rat
     \<Rightarrow> (error + (zsync_state \<times> int)) option" where
  "zsync_submit_data md4 zs buf offset nblocks =
     (case zs_rs zs of
        None \<Rightarrow> Some (Inl RsNull)
      | Some rs \<Rightarrow>
         (let blstart = to_int32 (js_trunc (of_int offset / of_int (zs_blocksize zs)));
              blend = of_int blstart + nblocks - 1
          in case rcksum_submit_blocks md4 rs buf blstart blend of
               None \<Rightarrow> None
             | Some (Inl e) \<Rightarrow> Some (Inl e)
             | Some (Inr (rs', rc)) \<Rightarrow> Some (Inr (zs\<lparr>zs_rs := Some rs'\<rparr>, rc))))"

text \<open>\<^verbatim>\<open>dst.set(src, at)\<close> and \<^verbatim>\<open>dst.fill(0, from, to)\<close> on typed arrays.\<close>

definition typed_set :: "byte list \<Rightarrow> byte list \<Rightarrow> int \<Rightarrow> error + byte list" where
  "typed_set dst src pos =
     (if pos < 0 \<or> pos + int (length src) > int (length dst) then Inl OutOfRange
      else Inr (take (nat pos) dst @ src @ drop (nat pos + length src) dst))"

definition typed_fill0 :: "byte list \<Rightarrow> int \<Rightarrow> int \<Rightarrow> byte list" where
  "typed_fill0 dst lo hi =
     (let s = js_clamp (length dst) lo; e = js_clamp (length dst) hi
      in take s dst @ replicate (e - s) 0 @ drop (max s e) dst)"

text \<open>
  The second and third phase of \<^verbatim>\<open>zsync_receive_data\<close>, entered with the block
  aligned rest of the chunk: submit the whole blocks, keep the tail, record the
  offset. The product \<^verbatim>\<open>w * blocksize\<close> is the integer \<open>len\<close> again.
\<close>

definition receive_aligned ::
  "(byte list \<Rightarrow> byte list) \<Rightarrow> zsync_receiver \<Rightarrow> byte list \<Rightarrow> int \<Rightarrow> int \<Rightarrow> int
     \<Rightarrow> (error + (zsync_receiver \<times> int)) option" where
  "receive_aligned md4 zr buf offset len ret =
     (let blocksize = zs_blocksize (zr_zs zr)
      in case (if len \<ge> blocksize
               then (let w = (of_int len :: rat) / of_int blocksize
                     in case zsync_submit_data md4 (zr_zs zr) buf offset w of
                          None \<Rightarrow> None
                        | Some (Inl e) \<Rightarrow> Some (Inl e)
                        | Some (Inr (zs', rc)) \<Rightarrow>
                            (let wb = js_trunc (w * of_int blocksize)
                             in Some (Inr (zr\<lparr>zr_zs := zs'\<rparr>, subarray_from buf wb,
                                           len - wb, offset + wb,
                                           if rc \<noteq> 0 then 1 else ret))))
               else Some (Inr (zr, buf, len, offset, ret))) of
           None \<Rightarrow> None
         | Some (Inl e) \<Rightarrow> Some (Inl e)
         | Some (Inr (zr1, buf1, len1, offset1, ret1)) \<Rightarrow>
             if len1 \<noteq> 0 then
               (case typed_set (zr_outbuf zr1) (subarray buf1 0 len1) 0 of
                  Inl e \<Rightarrow> Some (Inl e)
                | Inr ob \<Rightarrow>
                    Some (Inr (zr1\<lparr>zr_outbuf := ob, zr_outoffset := offset1 + len1\<rparr>, ret1)))
             else Some (Inr (zr1\<lparr>zr_outoffset := offset1\<rparr>, ret1)))"

definition zsync_receive_data ::
  "(byte list \<Rightarrow> byte list) \<Rightarrow> zsync_receiver \<Rightarrow> byte list \<Rightarrow> int \<Rightarrow> int
     \<Rightarrow> (error + (zsync_receiver \<times> int)) option" where
  "zsync_receive_data md4 zr buf offset len =
     (let blocksize = zs_blocksize (zr_zs zr)
      in if js_rem offset blocksize \<noteq> 0 then
           (let gap = blocksize - js_rem offset blocksize;
                x = (if len > gap then gap else len)
            in if zr_outoffset zr = offset then
                 (case (if len \<noteq> 0
                        then (case typed_set (zr_outbuf zr) (subarray buf 0 x)
                                     (js_rem offset blocksize) of
                                Inl e \<Rightarrow> Inl e
                              | Inr ob \<Rightarrow> Inr (ob, x, len))
                        else Inr (typed_fill0 (zr_outbuf zr) (js_rem offset blocksize)
                                    (js_rem offset blocksize + gap), gap, gap)) of
                    Inl e \<Rightarrow> Some (Inl e)
                  | Inr (ob, x', len') \<Rightarrow>
                     (let zr1 = zr\<lparr>zr_outbuf := ob\<rparr>
                      in if js_rem (x' + offset) blocksize = 0 then
                           (case zsync_submit_data md4 (zr_zs zr1) ob
                                   (zr_outoffset zr1 + x' - blocksize) 1 of
                              None \<Rightarrow> None
                            | Some (Inl e) \<Rightarrow> Some (Inl e)
                            | Some (Inr (zs', rc)) \<Rightarrow>
                                receive_aligned md4 (zr1\<lparr>zr_zs := zs'\<rparr>) (subarray_from buf x')
                                  (offset + x') (len' - x') (if rc \<noteq> 0 then 1 else 0))
                         else receive_aligned md4 zr1 (subarray_from buf x')
                                (offset + x') (len' - x') 0))
               else receive_aligned md4 zr (subarray_from buf x) (offset + x) (len - x) 0)
         else receive_aligned md4 zr buf offset len 0)"

text \<open>
  \<^verbatim>\<open>zsync_sha1\<close> reads the file in pieces of 4096 bytes and feeds them to a SHA-1
  object, which digests their concatenation; \<open>sha1_hex\<close> is the library's digest of
  a byte sequence as a hexadecimal string.
\<close>

function sha1_read_loop :: "byte list \<Rightarrow> nat \<Rightarrow> byte list \<Rightarrow> byte list" where
  "sha1_read_loop f offset fed =
     (if min 4096 (length f - offset) = 0 then fed
      else sha1_read_loop f (offset + min 4096 (length f - offset))
             (fed @ take (min 4096 (length f - offset)) (drop offset f)))"
  by pat_completeness auto
termination
  by (relation "measure (\<lambda>(f, offset, fed). length f - offset)") auto

declare sha1_read_loop.simps [simp del]

definition zsync_sha1 :: "(byte list \<Rightarrow> string) \<Rightarrow> zsync_state \<Rightarrow> byte list \<Rightarrow> int" where
  "zsync_sha1 sha1_hex zs f =
     (if zs_checksum zs = Some (sha1_hex (sha1_read_loop f 0 [])) then 1 else - 1)"

text \<open>\<^verbatim>\<open>truncate(path, len)\<close>: cut the file, or extend it with zero bytes.\<close>

definition truncate_file :: "byte list \<Rightarrow> int \<Rightarrow> byte list" where
  "truncate_file f len = take (nat len) f @ replicate (nat len - length f) 0"

text \<open>
  \<^verbatim>\<open>zsync_complete\<close>. The result carries the content of the scratch file on disk
  after the call, next to the state and the return code.
\<close>

definition zsync_complete ::
  "(byte list \<Rightarrow> string) \<Rightarrow> zsync_state \<Rightarrow> error + (zsync_state \<times> byte list \<times> int)" where
  "zsync_complete sha1_hex zs =
     (case zs_rs zs of
        None \<Rightarrow> Inl RsNull
      | Some rs0 \<Rightarrow>
         (case zsync_cur_filename zs of
            Inl e \<Rightarrow> Inl e
          | Inr (fname, zs1) \<Rightarrow>
             (case (case zs_rs zs1 of None \<Rightarrow> None | Some rs \<Rightarrow> rcksum_end rs) of
                None \<Rightarrow> Inl NoSuchFile
              | Some content \<Rightarrow>
                 (if zs_filelen zs1 < 0 then Inl OutOfRange
                  else
                    (let zs2 = zs1\<lparr>zs_rs := None\<rparr>;
                         disk = truncate_file content (zs_filelen zs2);
                         rc = (if zs_checksum zs2 \<noteq> None \<and> zs_checksum_method zs2 = ''SHA-1''
                               then zsync_sha1 sha1_hex zs2 disk else 0)
                     in Inr (zs2, disk, rc))))))"

section \<open>The download loop (client.ts)\<close>

text \<open>
  \<^verbatim>\<open>fetch_remaining_blocks\<close>. The HTTP transfer \<^verbatim>\<open>fetch_remaining_blocks_http\<close> is a
  parameter \<open>fetch\<close>, which may answer differently at each attempt; the values of
  \<^verbatim>\<open>Math.floor(Math.random() * n)\<close> are taken from the list \<open>picks\<close>, and the loop
  gives \<^const>\<open>None\<close> when it needs more of them than the list holds. The sparse array
  \<^verbatim>\<open>status\<close> is a map. The indices of the URLs fetched from are collected in order.
\<close>

fun fetch_loop ::
  "(nat \<Rightarrow> zsync_state \<Rightarrow> string \<Rightarrow> error + (zsync_state \<times> int)) \<Rightarrow> string list \<Rightarrow> nat list
     \<Rightarrow> zsync_state \<Rightarrow> (nat \<rightharpoonup> int) \<Rightarrow> int \<Rightarrow> nat list
     \<Rightarrow> (error + (zsync_state \<times> nat list)) option" where
  "fetch_loop fetch url picks zs status ok_urls fetched =
     (case zsync_status zs of
        Inl e \<Rightarrow> Some (Inl e)
      | Inr st \<Rightarrow>
         if st < 2 \<and> ok_urls \<noteq> 0 then
           (case picks of
              [] \<Rightarrow> None
            | try2 # picks' \<Rightarrow>
               if status try2 \<noteq> Some 0 then
                 (if try2 < length url then
                    (case fetch (length fetched) zs (url ! try2) of
                       Inl e \<Rightarrow> Some (Inl e)
                     | Inr (zs', rc) \<Rightarrow>
                        if rc \<noteq> 0
                        then fetch_loop fetch url picks' zs' (status(try2 \<mapsto> 1)) (ok_urls - 1)
                               (fetched @ [try2])
                        else fetch_loop fetch url picks' zs' status ok_urls (fetched @ [try2]))
                  else Some (Inl TypeError))
               else fetch_loop fetch url picks' zs status ok_urls fetched)
         else Some (Inr (zs, fetched)))"

declare fetch_loop.simps [simp del]

definition fetch_remaining_blocks ::
  "(nat \<Rightarrow> zsync_state \<Rightarrow> string \<Rightarrow> error + (zsync_state \<times> int)) \<Rightarrow> nat list \<Rightarrow> zsync_state
     \<Rightarrow> (error + (zsync_state \<times> nat list)) option" where
  "fetch_remaining_blocks fetch picks zs =
     (case zsync_get_urls zs of
        Inl e \<Rightarrow> Some (Inl e)
      | Inr url \<Rightarrow>
          if length url = 0 then Some (Inl NoUrls)
          else fetch_loop fetch url picks zs Map.empty (int (length url)) [])"


section \<open>Notions used to state the properties\<close>

text \<open>
  The list of known ranges is well formed when it holds pairs \<open>lo \<le> hi\<close> in
  increasing order with at least one missing block between two neighbours (each range
  is maximal), and \<^verbatim>\<open>numranges\<close> counts the pairs. \<open>set_of\<close> is the set of blocks the
  list stands for.
\<close>

fun canon :: "int list \<Rightarrow> bool" where
  "canon [] = True"
| "canon [l] = False"
| "canon [l, h] = (l \<le> h)"
| "canon (l # h # l' # rest) = (l \<le> h \<and> h + 1 < l' \<and> canon (l' # rest))"

fun set_of :: "int list \<Rightarrow> int set" where
  "set_of [] = {}"
| "set_of [l] = {}"
| "set_of (l # h # rest) = {l..h} \<union> set_of rest"

definition ranges_wf :: "rcksum_state \<Rightarrow> bool" where
  "ranges_wf rs = (numranges rs * 2 = int (length (ranges rs)) \<and> canon (ranges rs))"

fun sorted_disjoint :: "int list \<Rightarrow> bool" where
  "sorted_disjoint [] = True"
| "sorted_disjoint [l] = False"
| "sorted_disjoint [l, h] = (l \<le> h)"
| "sorted_disjoint (l # h # l' # rest) = (l \<le> h \<and> h < l' \<and> sorted_disjoint (l' # rest))"


text \<open>The result of the bisection: inside a range, or the number of the gap.\<close>

definition bisect_post :: "int list \<Rightarrow> int \<Rightarrow> int \<Rightarrow> int \<Rightarrow> bool" where
  "bisect_post rg n x res \<longleftrightarrow>
     (res = - 1 \<and> (\<exists>i. 0 \<le> i \<and> i < n \<and> rg ! nat (2 * i) \<le> x \<and> x \<le> rg ! nat (2 * i + 1)))
     \<or> (0 \<le> res \<and> res \<le> n
        \<and> (\<forall>i. 0 \<le> i \<and> i < res \<longrightarrow> rg ! nat (2 * i + 1) < x)
        \<and> (\<forall>i. res \<le> i \<and> i < n \<longrightarrow> x < rg ! nat (2 * i)))"


text \<open>
  The four cases of \<^verbatim>\<open>add_to_ranges\<close> on a list cut at the gap that holds \<open>x\<close>.
\<close>

definition ins_split :: "int list \<Rightarrow> int list \<Rightarrow> int \<Rightarrow> int list" where
  "ins_split A B x =
     (if A \<noteq> [] \<and> B \<noteq> [] \<and> last A = x - 1 \<and> hd B = x + 1 then butlast A @ tl B
      else if A \<noteq> [] \<and> last A = x - 1 then butlast A @ [x] @ B
      else if B \<noteq> [] \<and> hd B = x + 1 then A @ x # tl B
      else A @ [x, x] @ B)"


text \<open>
  The equations of the functions defined as least fixed points, for evaluation.
\<close>

declare remove_walk.simps [code]
declare check_chain.simps [code]
declare rcksum_calc_rsum_loop.simps [code]

text \<open>
  A target of one block of four bytes, \<open>[1, 2, 3, 4]\<close>, whose weak sums are
  \<open>(10, 20)\<close>, with the stored strong checksum \<open>c\<close>: the state after the checksum
  table is entered and the hash tables are built, at the moment the rolling sums of
  the matcher are those of a window \<open>[1, 2, 3, 4]\<close>.
\<close>

definition one_block :: "byte list \<Rightarrow> error + rcksum_state" where
  "one_block c =
     (case rcksum_init 1 4 4 16 1 ''rcksum-000000'' of
        None \<Rightarrow> Inl TypeError
      | Some z \<Rightarrow>
         (case rcksum_add_target_block z 0 \<lparr>a = 10, b = 20\<rparr> c of
            Inl e \<Rightarrow> Inl e
          | Inr z1 \<Rightarrow>
             (case build_hash z1 of
                Inl e \<Rightarrow> Inl e
              | Inr z2 \<Rightarrow> Inr (z2\<lparr>cur_r := (\<lparr>a = 10, b = 20\<rparr>, \<lparr>a = 0, b = 0\<rparr>)\<rparr>))))"

text \<open>
  What the matcher does with the window \<open>[1, 2, 3, 4]\<close> on that state: it looks the
  window up and checks the chain found. The result is the number of blocks
  obtained, the content of the scratch file and the list of known ranges.
\<close>

definition window_result ::
  "(byte list \<Rightarrow> byte list) \<Rightarrow> byte list \<Rightarrow> (int \<times> byte list option \<times> int list) option" where
  "window_result md4 c =
     (case one_block c of
        Inl e \<Rightarrow> None
      | Inr z \<Rightarrow>
         (case lookup_chain z of
            None \<Rightarrow> None
          | Some e \<Rightarrow>
             (case check_checksums_on_hash_chain md4 z e [1, 2, 3, 4] False of
                Some (Inr (z', n)) \<Rightarrow> Some (n, fd z', ranges z')
              | _ \<Rightarrow> None)))"

text \<open>
  A target of two blocks, \<open>[1, 2, 3, 4]\<close> with weak sums \<open>(10, 20)\<close> and
  \<open>[5, 6, 7, 8]\<close> with weak sums \<open>(26, 60)\<close>, with its hash tables built; and a
  state put at a window with the rolling sums \<open>s\<close>.
\<close>

definition two_blocks :: "byte list \<Rightarrow> byte list \<Rightarrow> error + rcksum_state" where
  "two_blocks c0 c1 =
     (case rcksum_init 2 4 4 16 1 ''rcksum-000000'' of
        None \<Rightarrow> Inl TypeError
      | Some z \<Rightarrow>
         (case rcksum_add_target_block z 0 \<lparr>a = 10, b = 20\<rparr> c0 of
            Inl e \<Rightarrow> Inl e
          | Inr z1 \<Rightarrow>
             (case rcksum_add_target_block z1 1 \<lparr>a = 26, b = 60\<rparr> c1 of
                Inl e \<Rightarrow> Inl e
              | Inr z2 \<Rightarrow> build_hash z2)))"

definition at_window :: "rcksum_state \<Rightarrow> rsum \<Rightarrow> rcksum_state" where
  "at_window z s = z\<lparr>cur_r := (s, \<lparr>a = 0, b = 0\<rparr>)\<rparr>"

text \<open>
  A digest function for closed examples; the theorems below hold for every digest
  function.
\<close>

definition example_digest :: "byte list \<Rightarrow> byte list" where
  "example_digest d = take 16 (d @ replicate 16 0)"

text \<open>A session for a file of 10 bytes in 3 blocks of 4, with two URLs.\<close>

definition example_session :: zsync_state where
  "example_session =
     \<lparr>zs_rs = rcksum_init 3 4 4 16 1 ''rcksum-000000'',
      zs_filelen = 10, zs_blocks = 3, zs_blocksize = 4,
      zs_checksum = None, zs_checksum_method = [],
      zs_url = [''http://a/f'', ''http://b/f''], zs_nurl = 2,
      zs_cur_filename = None, zs_filename = ''f'', zs_mtime = - 1\<rparr>"

definition mark_known :: "int list \<Rightarrow> zsync_state \<Rightarrow> zsync_state" where
  "mark_known ids zs =
     zs\<lparr>zs_rs := map_option (fold (\<lambda>x rs. add_to_ranges rs x) ids) (zs_rs zs)\<rparr>"

text \<open>
  The checksum table of a control file for one block, as a stream, and the weak sum
  stored for block 0 once it is read.
\<close>

definition control_tail :: "byte list \<Rightarrow> FILE" where
  "control_tail bytes =
     \<lparr>f_handle = bytes, f_position = 0, f_closed = False, f_size = int (length bytes)\<rparr>"

definition stored_weak :: "error + (zsync_state \<times> FILE \<times> int) \<Rightarrow> (int \<times> int) option" where
  "stored_weak res =
     (case res of
        Inr (zs, f, rc) \<Rightarrow>
          (case zs_rs zs of
             Some z \<Rightarrow> (case blockhashes z of e # es \<Rightarrow> Some (a (r e), b (r e)) | [] \<Rightarrow> None)
           | None \<Rightarrow> None)
      | Inl e \<Rightarrow> None)"

text \<open>A transfer that fails at every attempt and leaves the session as it is.\<close>

definition always_failing :: "nat \<Rightarrow> zsync_state \<Rightarrow> string \<Rightarrow> error + (zsync_state \<times> int)" where
  "always_failing n zs u = Inr (zs, - 1)"

text \<open>
  What \<^verbatim>\<open>zsync_complete\<close> expects of a session: the engine state is there with its
  scratch file open, the file name has not been handed out twice, the target length
  is not negative, and a whole-file checksum, if any, came from a \<^verbatim>\<open>SHA-1\<close> header
  (the only header that sets it).
\<close>

definition complete_pre :: "zsync_state \<Rightarrow> rcksum_state \<Rightarrow> byte list \<Rightarrow> bool" where
  "complete_pre zs rs content \<longleftrightarrow>
     zs_rs zs = Some rs \<and> fd rs = Some content \<and> 0 \<le> zs_filelen zs
     \<and> (zs_cur_filename zs = None) = (filename rs \<noteq> None)
     \<and> (zs_checksum zs = None \<or> zs_checksum_method zs = ''SHA-1'')"

text \<open>A hexadecimal digest function for closed examples.\<close>

definition example_hex :: "byte list \<Rightarrow> string" where
  "example_hex d = map (\<lambda>w. ''0123456789abcdef'' ! (unat w mod 16)) d"

text \<open>
  The example session with 12 bytes in its scratch file (three whole blocks, for a
  target of 10 bytes) and a given whole-file checksum.
\<close>

definition complete_session :: "string option \<Rightarrow> zsync_state" where
  "complete_session ck =
     example_session
       \<lparr>zs_rs := map_option (\<lambda>z. z\<lparr>fd := Some [1, 2, 3, 4, 5, 6, 7, 8, 9, 10, 11, 12]\<rparr>)
                  (zs_rs example_session),
        zs_checksum := ck,
        zs_checksum_method := (if ck = None then [] else ''SHA-1'')\<rparr>"



text \<open>
  A session for the target \<open>[1, 2, 3, 4, 5, 6, 7, 8]\<close> in two blocks of 4, with the
  strong sums of the example digest; and a receiver of it that has buffered two
  bytes \<open>ob\<close> of block 0 and waits for the byte at offset 2.
\<close>

definition two_block_session :: zsync_state where
  "two_block_session =
     \<lparr>zs_rs = (case two_blocks (example_digest [1, 2, 3, 4]) (example_digest [5, 6, 7, 8]) of
                 Inl e \<Rightarrow> None | Inr z \<Rightarrow> Some z),
      zs_filelen = 8, zs_blocks = 2, zs_blocksize = 4,
      zs_checksum = None, zs_checksum_method = [],
      zs_url = [''http://a/f''], zs_nurl = 1,
      zs_cur_filename = None, zs_filename = ''f'', zs_mtime = - 1\<rparr>"

definition pending_receiver :: "byte list \<Rightarrow> zsync_receiver" where
  "pending_receiver ob =
     \<lparr>zr_zs = two_block_session, zr_url_type = 0, zr_outbuf = ob, zr_outoffset = 2\<rparr>"

text \<open>
  Of an outcome: the scratch file, the known ranges, the buffer, the offset recorded
  and the return code.
\<close>

definition receive_summary ::
  "(error + (zsync_receiver \<times> int)) option
     \<Rightarrow> (byte list option \<times> int list \<times> byte list \<times> int \<times> int) option" where
  "receive_summary res =
     (case res of
        Some (Inr (zr, ret)) \<Rightarrow>
          (case zs_rs (zr_zs zr) of
             Some z \<Rightarrow> Some (fd z, ranges z, zr_outbuf zr, zr_outoffset zr, ret)
           | None \<Rightarrow> None)
      | _ \<Rightarrow> None)"

text \<open>A state with two known ranges, blocks 1 to 2 and 7 to 9 of 12.\<close>

definition example_ranges_state :: rcksum_state where
  "example_ranges_state =
     (the (rcksum_init 12 4 4 16 1 ''rcksum-000000''))\<lparr>ranges := [1, 2, 7, 9], numranges := 2, gotblocks := 5\<rparr>"

section \<open>Known ranges: insertion commutes, is idempotent and keeps the list well formed\<close>

lemma canon_even: "canon rg \<Longrightarrow> even (length rg)"
  by (induction rg rule: canon.induct) auto

lemma canon_Cons2: "canon (l # h # rest) \<Longrightarrow> canon rest"
  by (cases rest) auto

lemma canon_sorted: "canon rg \<Longrightarrow> sorted rg"
  by (induction rg rule: canon.induct) auto

lemma canon_lo_hi: "canon (l # h # rest) \<Longrightarrow> l \<le> h"
  by (cases rest) auto

lemma canon_above: "canon (l # h # rest) \<Longrightarrow> y \<in> set_of rest \<Longrightarrow> h + 1 < y"
proof (induction rest arbitrary: l h rule: canon.induct)
  case (4 l1 h1 l2 rest)
  from "4.prems"(1) have c: "l \<le> h" "h + 1 < l1" "l1 \<le> h1" "h1 + 1 < l2" "canon (l2 # rest)"
    by auto
  from "4.prems"(2) have "y \<in> {l1..h1} \<or> y \<in> set_of (l2 # rest)" by auto
  then show ?case
  proof
    assume "y \<in> {l1..h1}" with c show ?thesis by auto
  next
    assume y: "y \<in> set_of (l2 # rest)"
    have "canon (l1 # h1 # l2 # rest)" using c by auto
    from "4.IH"[OF this y] c show ?thesis by auto
  qed
qed auto


lemma canon_min: "canon (l # h # rest) \<Longrightarrow> y \<in> set_of (l # h # rest) \<Longrightarrow> l \<le> y"
proof -
  assume c: "canon (l # h # rest)" and y: "y \<in> set_of (l # h # rest)"
  have lh: "l \<le> h" using c by (rule canon_lo_hi)
  from y have "y \<in> {l..h} \<or> y \<in> set_of rest" by simp
  then show "l \<le> y"
  proof
    assume "y \<in> {l..h}" then show ?thesis by simp
  next
    assume "y \<in> set_of rest"
    from canon_above[OF c this] lh show ?thesis by simp
  qed
qed

lemma canon_hi_succ: "canon (l # h # rest) \<Longrightarrow> h + 1 \<notin> set_of (l # h # rest)"
proof
  assume c: "canon (l # h # rest)" and y: "h + 1 \<in> set_of (l # h # rest)"
  from y have "h + 1 \<in> {l..h} \<or> h + 1 \<in> set_of rest" by simp
  then show False
  proof
    assume "h + 1 \<in> {l..h}" then show False by simp
  next
    assume "h + 1 \<in> set_of rest"
    from canon_above[OF c this] show False by simp
  qed
qed

lemma canon_first: "canon (l # h # rest) \<Longrightarrow> l \<le> y \<Longrightarrow> y \<le> h \<Longrightarrow> y \<in> set_of (l # h # rest)"
  by simp

lemma canon_rest_mem:
  "canon (l # h # rest) \<Longrightarrow> y \<in> set_of rest \<longleftrightarrow> y \<in> set_of (l # h # rest) \<and> h < y"
proof -
  assume c: "canon (l # h # rest)"
  show ?thesis
  proof
    assume y: "y \<in> set_of rest"
    from canon_above[OF c y] y show "y \<in> set_of (l # h # rest) \<and> h < y" by simp
  next
    assume "y \<in> set_of (l # h # rest) \<and> h < y"
    then show "y \<in> set_of rest" by auto
  qed
qed

lemma canon_unique: "canon xs \<Longrightarrow> canon ys \<Longrightarrow> set_of xs = set_of ys \<Longrightarrow> xs = ys"
proof (induction xs arbitrary: ys rule: set_of.induct)
  case (3 l h rest)
  note cx = "3.prems"(1)
  have lh: "l \<le> h" using cx by (rule canon_lo_hi)
  have "l \<in> set_of (l # h # rest)" using lh by simp
  then have lin: "l \<in> set_of ys" unfolding "3.prems"(3) .
  have "\<exists>l' h' rest'. ys = l' # h' # rest'"
  proof (cases ys rule: set_of.cases)
    case (3 l' h' rest') then show ?thesis by blast
  next
    case 1 then show ?thesis using lin by simp
  next
    case (2 v) then show ?thesis using lin by simp
  qed
  then obtain l' h' rest' where ys: "ys = l' # h' # rest'" by blast
  have cy: "canon (l' # h' # rest')" using "3.prems"(2) ys by simp
  have lh': "l' \<le> h'" using cy by (rule canon_lo_hi)
  have S: "set_of (l # h # rest) = set_of (l' # h' # rest')"
    using "3.prems"(3) unfolding ys .
  have "l' \<in> set_of (l # h # rest)" unfolding S using lh' by simp
  then have l1: "l \<le> l'" by (rule canon_min[OF cx])
  have "l \<in> set_of (l' # h' # rest')" unfolding S[symmetric] using lh by simp
  then have l2: "l' \<le> l" by (rule canon_min[OF cy])
  have ll: "l = l'" using l1 l2 by simp
  have hh: "h = h'"
  proof (rule ccontr)
    assume ne: "h \<noteq> h'"
    show False
    proof (cases "h < h'")
      case True
      have "h + 1 \<in> set_of (l' # h' # rest')"
        by (rule canon_first[OF cy]) (use True ll lh in simp_all)
      then have "h + 1 \<in> set_of (l # h # rest)" unfolding S .
      then show False using canon_hi_succ[OF cx] by blast
    next
      case False
      then have lt: "h' < h" using ne by simp
      have "h' + 1 \<in> set_of (l # h # rest)"
        by (rule canon_first[OF cx]) (use lt ll lh' in simp_all)
      then have "h' + 1 \<in> set_of (l' # h' # rest')" unfolding S .
      then show False using canon_hi_succ[OF cy] by blast
    qed
  qed
  have "set_of rest = set_of rest'"
  proof (rule set_eqI)
    fix y
    have "y \<in> set_of rest \<longleftrightarrow> y \<in> set_of (l # h # rest) \<and> h < y"
      by (rule canon_rest_mem[OF cx])
    also have "\<dots> \<longleftrightarrow> y \<in> set_of (l' # h' # rest') \<and> h < y"
      unfolding S ..
    also have "\<dots> \<longleftrightarrow> y \<in> set_of (l' # h' # rest') \<and> h' < y"
      unfolding hh ..
    also have "\<dots> \<longleftrightarrow> y \<in> set_of rest'"
      by (rule canon_rest_mem[OF cy, symmetric])
    finally show "y \<in> set_of rest \<longleftrightarrow> y \<in> set_of rest'" .
  qed
  moreover have "canon rest" using cx by (rule canon_Cons2)
  moreover have "canon rest'" using cy by (rule canon_Cons2)
  ultimately have "rest = rest'" by (rule "3.IH"[rotated 2])
  then show ?case using ll hh ys by simp
next
  case 1
  show ?case
  proof (cases ys rule: set_of.cases)
    case (3 l h rest)
    then have "l \<le> h" using "1.prems"(2) canon_lo_hi by blast
    then have "l \<in> set_of ys" using 3 by simp
    then show ?thesis using "1.prems"(3) by simp
  next
    case 1 then show ?thesis by simp
  next
    case (2 v) then show ?thesis using "1.prems"(2) by simp
  qed
next
  case (2 v)
  then show ?case by simp
qed


lemma set_of_nth:
  "2 * i + 1 < length rg \<Longrightarrow> rg ! (2 * i) \<le> y \<Longrightarrow> y \<le> rg ! (2 * i + 1) \<Longrightarrow> y \<in> set_of rg"
proof (induction rg arbitrary: i rule: set_of.induct)
  case (3 l h rest)
  show ?case
  proof (cases i)
    case 0
    then show ?thesis using "3.prems" by simp
  next
    case (Suc j)
    then have "y \<in> set_of rest"
      using "3.prems" by (intro "3.IH"[of j]) simp_all
    then show ?thesis by simp
  qed
qed simp_all


lemma bisect_inv:
  "sorted rg \<Longrightarrow> int (length rg) = 2 * n \<Longrightarrow> 0 \<le> mn \<Longrightarrow> mx < n \<Longrightarrow> mn \<le> mx + 1 \<Longrightarrow>
     (\<forall>i. 0 \<le> i \<and> i < mn \<longrightarrow> rg ! nat (2 * i + 1) < x) \<Longrightarrow>
     (\<forall>i. mx < i \<and> i < n \<longrightarrow> x < rg ! nat (2 * i)) \<Longrightarrow>
     bisect_post rg n x (range_before_block_loop rg x mn mx)"
proof (induction rg x mn mx rule: range_before_block_loop.induct)
  case (1 rg x mn mx)
  note srt = "1.prems"(1) and len = "1.prems"(2) and mn0 = "1.prems"(3)
    and mxn = "1.prems"(4) and mnmx = "1.prems"(5) and lo = "1.prems"(6) and hi = "1.prems"(7)
  show ?case
  proof (cases "mn \<le> mx")
    case False
    then have eq: "range_before_block_loop rg x mn mx = mn"
      by (subst range_before_block_loop.simps) simp
    have e: "mn = mx + 1" using False mnmx by simp
    have "\<forall>i. mn \<le> i \<and> i < n \<longrightarrow> x < rg ! nat (2 * i)" using hi e by simp
    then show ?thesis unfolding eq bisect_post_def using mn0 mxn e lo by simp
  next
    case True
    define m where "m = (mx + mn) div 2"
    have m: "mn \<le> m" "m \<le> mx" using True unfolding m_def by auto
    have in1: "js_at rg (2 * m + 1) = Some (rg ! nat (2 * m + 1))"
      using m mn0 mxn len by (simp add: js_at_def)
    have in0: "js_at rg (2 * m) = Some (rg ! nat (2 * m))"
      using m mn0 mxn len by (simp add: js_at_def)
    show ?thesis
    proof (cases "x > rg ! nat (2 * m + 1)")
      case gt: True
      have g: "js_gt x (js_at rg (2 * ((mx + mn) div 2) + 1))"
        using gt in1 unfolding m_def by simp
      have eq: "range_before_block_loop rg x mn mx = range_before_block_loop rg x (m + 1) mx"
        using True g by (subst range_before_block_loop.simps) (simp add: m_def)
      have inv: "\<forall>i. 0 \<le> i \<and> i < m + 1 \<longrightarrow> rg ! nat (2 * i + 1) < x"
      proof (intro allI impI)
        fix i assume i: "0 \<le> i \<and> i < m + 1"
        have "rg ! nat (2 * i + 1) \<le> rg ! nat (2 * m + 1)"
          using srt i m mxn len by (intro sorted_nth_mono) auto
        then show "rg ! nat (2 * i + 1) < x" using gt by simp
      qed
      have "bisect_post rg n x (range_before_block_loop rg x ((mx + mn) div 2 + 1) mx)"
      proof (rule "1.IH"(1)[OF True g srt len _ mxn _ _ hi])
        show "0 \<le> (mx + mn) div 2 + 1" using m mn0 unfolding m_def by simp
        show "(mx + mn) div 2 + 1 \<le> mx + 1" using m unfolding m_def by simp
        show "\<forall>i. 0 \<le> i \<and> i < (mx + mn) div 2 + 1 \<longrightarrow> rg ! nat (2 * i + 1) < x"
          using inv unfolding m_def .
      qed
      then show ?thesis unfolding eq m_def .
    next
      case ngt: False
      have g: "\<not> js_gt x (js_at rg (2 * ((mx + mn) div 2) + 1))"
        using ngt in1 unfolding m_def by simp
      show ?thesis
      proof (cases "x < rg ! nat (2 * m)")
        case lt: True
        have l: "js_lt x (js_at rg (2 * ((mx + mn) div 2)))"
          using lt in0 unfolding m_def by simp
        have eq: "range_before_block_loop rg x mn mx = range_before_block_loop rg x mn (m - 1)"
          using True g l by (subst range_before_block_loop.simps) (simp add: m_def)
        have inv: "\<forall>i. m - 1 < i \<and> i < n \<longrightarrow> x < rg ! nat (2 * i)"
        proof (intro allI impI)
          fix i assume i: "m - 1 < i \<and> i < n"
          have "rg ! nat (2 * m) \<le> rg ! nat (2 * i)"
            using srt i m mn0 len by (intro sorted_nth_mono) auto
          then show "x < rg ! nat (2 * i)" using lt by simp
        qed
        have "bisect_post rg n x (range_before_block_loop rg x mn ((mx + mn) div 2 - 1))"
        proof (rule "1.IH"(2)[OF True g l srt len mn0 _ _ lo])
          show "(mx + mn) div 2 - 1 < n" using m mxn unfolding m_def by simp
          show "mn \<le> (mx + mn) div 2 - 1 + 1" using m unfolding m_def by simp
          show "\<forall>i. (mx + mn) div 2 - 1 < i \<and> i < n \<longrightarrow> x < rg ! nat (2 * i)"
            using inv unfolding m_def .
        qed
        then show ?thesis unfolding eq m_def .
      next
        case nlt: False
        have l: "\<not> js_lt x (js_at rg (2 * ((mx + mn) div 2)))"
          using nlt in0 unfolding m_def by simp
        have eq: "range_before_block_loop rg x mn mx = - 1"
          using True g l by (subst range_before_block_loop.simps) simp
        have "0 \<le> m \<and> m < n \<and> rg ! nat (2 * m) \<le> x \<and> x \<le> rg ! nat (2 * m + 1)"
          using m mn0 mxn ngt nlt by simp
        then show ?thesis unfolding eq bisect_post_def by blast
      qed
    qed
  qed
qed


lemma js_at_append_last:
  "A \<noteq> [] \<Longrightarrow> int (length A) = 2 * k \<Longrightarrow> js_at (A @ B) (2 * (k - 1) + 1) = Some (last A)"
proof -
  assume A: "A \<noteq> []" and len: "int (length A) = 2 * k"
  have n: "nat (2 * (k - 1) + 1) = length A - 1" using len A by auto
  have p: "0 \<le> 2 * (k - 1) + 1" using len A by (cases A) auto
  have l: "length A - 1 < length (A @ B)" using A by (cases A) auto
  have "(A @ B) ! (length A - 1) = last A"
    using A by (simp add: nth_append last_conv_nth)
  then show ?thesis unfolding js_at_def n using p l by simp
qed

lemma js_at_append_hd:
  "B \<noteq> [] \<Longrightarrow> int (length A) = 2 * k \<Longrightarrow> js_at (A @ B) (2 * k) = Some (hd B)"
  by (cases B) (auto simp: js_at_def nth_append)

lemma js_at_append_snd:
  "B = l # h # B' \<Longrightarrow> int (length A) = 2 * k \<Longrightarrow> js_at (A @ B) (2 * k + 1) = Some h"
  by (auto simp: js_at_def nth_append nat_add_distrib)

lemma js_at_append_none:
  "int (length A) = 2 * k \<Longrightarrow> js_at (A @ []) (2 * k) = None"
  by (auto simp: js_at_def)

lemma upd_append_last:
  "A \<noteq> [] \<Longrightarrow> int (length A) = 2 * k \<Longrightarrow> (A @ B)[nat (2 * (k - 1) + 1) := v] = butlast A @ [v] @ B"
proof -
  assume A: "A \<noteq> []" and len: "int (length A) = 2 * k"
  have n: "nat (2 * (k - 1) + 1) = length A - 1" using len A by auto
  obtain A' h0 where A': "A = A' @ [h0]" using A by (cases A rule: rev_cases) auto
  show ?thesis unfolding n A' by simp
qed

lemma upd_append_hd:
  "B \<noteq> [] \<Longrightarrow> int (length A) = 2 * k \<Longrightarrow> (A @ B)[nat (2 * k) := v] = A @ v # tl B"
proof -
  assume B: "B \<noteq> []" and len: "int (length A) = 2 * k"
  have n: "nat (2 * k) = length A" using len by auto
  show ?thesis unfolding n using B by (cases B) simp_all
qed

lemma splice_ins_append:
  "int (length A) = 2 * k \<Longrightarrow> splice_ins (A @ B) (2 * k) ys = A @ ys @ B"
proof -
  assume len: "int (length A) = 2 * k"
  have n: "nat (2 * k) = length A" using len by auto
  show ?thesis unfolding splice_ins_def n by simp
qed

lemma splice_del_append:
  "A \<noteq> [] \<Longrightarrow> int (length A) = 2 * k \<Longrightarrow>
   splice_del (butlast A @ [v] @ l # h # B') (2 * k) 2 = butlast A @ v # B'"
proof -
  assume A: "A \<noteq> []" and len: "int (length A) = 2 * k"
  have n: "nat (2 * k) = length (butlast A @ [v])" using len A by auto
  have "splice_del ((butlast A @ [v]) @ l # h # B') (2 * k) 2 = (butlast A @ [v]) @ B'"
    unfolding splice_del_def n by simp
  then show ?thesis by simp
qed



lemma add_to_ranges_split:
  assumes rg: "ranges rs = A @ B" and len: "int (length A) = 2 * k"
    and bis: "range_before_block rs x = k"
    and nr: "numranges rs * 2 = int (length (ranges rs))" and ev: "even (length B)"
  shows "add_to_ranges rs x =
           rs\<lparr>gotblocks := gotblocks rs + 1, ranges := ins_split A B x,
              numranges := int (length (ins_split A B x)) div 2\<rparr>"
proof -
  have k0: "0 \<le> k" using len by simp
  have kA: "(k > 0) = (A \<noteq> [])" using len by (cases A) auto
  have kB: "(k < numranges rs) = (B \<noteq> [])" using nr len unfolding rg by (cases B) auto
  have n0: "A \<noteq> [] \<Longrightarrow> (numranges rs \<noteq> 0) = True" using nr unfolding rg by (cases A) auto
  have nk: "(k = - 1) = False" using k0 by simp
  have nA: "numranges rs = (int (length A) + int (length B)) div 2" using nr unfolding rg by auto
  have unf: "add_to_ranges rs x =
     (let rs1 = rs\<lparr>gotblocks := gotblocks rs + 1\<rparr>
      in if A \<noteq> [] \<and> B \<noteq> []
            \<and> js_seq (js_at (A @ B) (2 * (k - 1) + 1)) (x - 1)
            \<and> js_seq (js_at (A @ B) (2 * k)) (x + 1)
         then rs1\<lparr>ranges :=
                     splice_del
                       (case js_at (A @ B) (2 * k + 1) of
                          Some h \<Rightarrow> (A @ B)[nat (2 * (k - 1) + 1) := h]
                        | None \<Rightarrow> A @ B) (2 * k) 2,
                  numranges := numranges rs - 1\<rparr>
         else if A \<noteq> [] \<and> numranges rs \<noteq> 0
                 \<and> js_seq (js_at (A @ B) (2 * (k - 1) + 1)) (x - 1)
         then rs1\<lparr>ranges := (A @ B)[nat (2 * (k - 1) + 1) := x]\<rparr>
         else if B \<noteq> [] \<and> js_seq (js_at (A @ B) (2 * k)) (x + 1)
         then rs1\<lparr>ranges := (A @ B)[nat (2 * k) := x]\<rparr>
         else rs1\<lparr>ranges := splice_ins (A @ B) (2 * k) [x, x],
                  numranges := numranges rs + 1\<rparr>)"
    unfolding add_to_ranges_def Let_def bis rg nk kA kB by (simp only: if_False)
  show ?thesis
  proof (cases "A = []")
    case Anil: True
    show ?thesis
    proof (cases B)
      case Nil
      show ?thesis
        unfolding unf Let_def splice_ins_append[OF len]
        by (auto simp: Anil Nil ins_split_def nA intro!: rcksum_state.equality)
    next
      case (Cons l B1)
      then obtain h B' where B: "B = l # h # B'" using ev by (cases B1) auto
      have Bne: "B \<noteq> []" using B by simp
      show ?thesis
        unfolding unf Let_def splice_ins_append[OF len]
          js_at_append_hd[OF Bne len] upd_append_hd[OF Bne len]
        by (auto simp: Anil B ins_split_def nA intro!: rcksum_state.equality)
    qed
  next
    case Ane: False
    show ?thesis
    proof (cases B)
      case Nil
      show ?thesis
        unfolding unf Let_def splice_ins_append[OF len] n0[OF Ane]
          js_at_append_last[OF Ane len] upd_append_last[OF Ane len]
        using Ane by (auto simp: Nil ins_split_def nA intro!: rcksum_state.equality)
    next
      case (Cons l B1)
      then obtain h B' where B: "B = l # h # B'" using ev by (cases B1) auto
      have Bne: "B \<noteq> []" using B by simp
      have sd: "splice_del (butlast A @ [h] @ B) (2 * k) 2 = butlast A @ h # B'"
        unfolding B by (rule splice_del_append[OF Ane len])
      have lA: "length A \<ge> 1" using Ane by (cases A) auto
      have lbl: "int (length (butlast A)) = int (length A) - 1" using lA by simp
      have g: "add_to_ranges rs x =
        (if last A = x - 1 \<and> l = x + 1
         then rs\<lparr>gotblocks := gotblocks rs + 1, ranges := butlast A @ h # B',
                 numranges := numranges rs - 1\<rparr>
         else if last A = x - 1
         then rs\<lparr>gotblocks := gotblocks rs + 1, ranges := butlast A @ [x] @ B\<rparr>
         else if l = x + 1
         then rs\<lparr>gotblocks := gotblocks rs + 1, ranges := A @ x # tl B\<rparr>
         else rs\<lparr>gotblocks := gotblocks rs + 1, ranges := A @ [x, x] @ B,
                 numranges := numranges rs + 1\<rparr>)"
        unfolding unf Let_def splice_ins_append[OF len] n0[OF Ane]
          js_at_append_last[OF Ane len] upd_append_last[OF Ane len]
          js_at_append_hd[OF Bne len] upd_append_hd[OF Bne len]
          js_at_append_snd[OF B len] option.case sd
        using Ane Bne by (simp add: B)
      have i: "ins_split A B x =
        (if last A = x - 1 \<and> l = x + 1 then butlast A @ h # B'
         else if last A = x - 1 then butlast A @ [x] @ B
         else if l = x + 1 then A @ x # tl B
         else A @ [x, x] @ B)"
        unfolding ins_split_def using Ane by (simp add: B)
      have nB: "numranges rs = (int (length A) + int (length B') + 2) div 2"
        unfolding nA B by simp
      have evA: "even (int (length A))" unfolding len by simp
      have evB: "even (int (length B'))" using ev unfolding B by simp
      show ?thesis
      proof (cases "last A = x - 1")
        case c1: True
        show ?thesis
        proof (cases "l = x + 1")
          case c2: True
          have "numranges rs - 1 = int (length (butlast A @ h # B')) div 2"
            unfolding nB using lA evA evB by (simp add: lbl)
          then show ?thesis unfolding g i using c1 c2 by simp
        next
          case c2: False
          have "numranges rs = int (length (butlast A @ [x] @ B)) div 2"
            unfolding nB B using lA evA evB by (simp add: lbl)
          then show ?thesis unfolding g i using c1 c2
            by (simp add: rcksum_state.equality)
        qed
      next
        case c1: False
        show ?thesis
        proof (cases "l = x + 1")
          case c2: True
          have "numranges rs = int (length (A @ x # tl B)) div 2"
            unfolding nB B by simp
          then show ?thesis unfolding g i using c1 c2
            by (simp add: rcksum_state.equality)
        next
          case c2: False
          have "numranges rs + 1 = int (length (A @ [x, x] @ B)) div 2"
            unfolding nB B by simp
          then show ?thesis unfolding g i using c1 c2 by simp
        qed
      qed
    qed
  qed
qed


lemma canon_Cons2_iff:
  "canon (l # h # B) \<longleftrightarrow> l \<le> h \<and> canon B \<and> (B \<noteq> [] \<longrightarrow> h + 1 < hd B)"
proof (cases B)
  case Nil then show ?thesis by simp
next
  case (Cons l1 B1)
  then show ?thesis by (cases B1) auto
qed

lemma canon_append:
  "even (length A) \<Longrightarrow>
   canon (A @ B) \<longleftrightarrow> canon A \<and> canon B \<and> (A \<noteq> [] \<and> B \<noteq> [] \<longrightarrow> last A + 1 < hd B)"
proof (induction A rule: canon.induct)
  case 1 then show ?case by simp
next
  case (2 l) then show ?case by simp
next
  case (3 l h)
  show ?case using canon_Cons2_iff[of l h B] by auto
next
  case (4 l h l' rest)
  have "even (length (l' # rest))" using "4.prems" by simp
  from "4.IH"[OF this] show ?case by simp
qed

lemma set_of_append: "even (length A) \<Longrightarrow> set_of (A @ B) = set_of A \<union> set_of B"
proof (induction A rule: set_of.induct)
  case (3 l h rest)
  then show ?case by (simp add: Un_assoc)
qed simp_all

lemma canon_snoc_decomp:
  assumes "canon A" "A \<noteq> []"
  obtains P l0 where "A = P @ [l0, last A]" "even (length P)"
proof -
  have ev: "even (length A)" using assms(1) by (rule canon_even)
  then have l2: "length A \<ge> 2" using assms(2) by (cases A; cases "tl A") auto
  define P where "P = take (length A - 2) A"
  define l0 where "l0 = A ! (length A - 2)"
  have "A = take (length A - 2) A @ drop (length A - 2) A" by simp
  moreover have "drop (length A - 2) A = [A ! (length A - 2), A ! (length A - 1)]"
  proof -
    have "drop (length A - 2) A = A ! (length A - 2) # drop (Suc (length A - 2)) A"
      using l2 by (intro Cons_nth_drop_Suc[symmetric]) simp
    moreover have "Suc (length A - 2) = length A - 1" using l2 by simp
    moreover have "drop (length A - 1) A = [A ! (length A - 1)]"
    proof -
      have "drop (length A - 1) A = A ! (length A - 1) # drop (Suc (length A - 1)) A"
        using l2 by (intro Cons_nth_drop_Suc[symmetric]) simp
      then show ?thesis using l2 by simp
    qed
    ultimately show ?thesis by simp
  qed
  moreover have "A ! (length A - 1) = last A" using assms(2) by (simp add: last_conv_nth)
  ultimately have "A = P @ [l0, last A]" unfolding P_def l0_def by simp
  moreover have "even (length P)" unfolding P_def using ev l2 by simp
  ultimately show ?thesis by (rule that)
qed


lemma ins_split_ok:
  assumes c: "canon (A @ B)" and ev: "even (length A)"
    and lo: "A \<noteq> [] \<Longrightarrow> last A < x" and hi: "B \<noteq> [] \<Longrightarrow> x < hd B"
  shows "canon (ins_split A B x) \<and> set_of (ins_split A B x) = insert x (set_of (A @ B))"
proof -
  have cA: "canon A" and cB: "canon B" using c canon_append[OF ev, of B] by simp_all
  have Bcases: "B = [] \<or> (\<exists>l1 h1 B'. B = l1 # h1 # B')"
    using cB by (cases B rule: canon.cases) auto
  show ?thesis
  proof (cases "A = []")
    case Anil: True
    from Bcases show ?thesis
    proof
      assume "B = []"
      then show ?thesis using Anil by (simp add: ins_split_def)
    next
      assume "\<exists>l1 h1 B'. B = l1 # h1 # B'"
      then obtain l1 h1 B' where B: "B = l1 # h1 # B'" by blast
      have x1: "x < l1" using hi B by simp
      have cc: "l1 \<le> h1 \<and> canon B' \<and> (B' \<noteq> [] \<longrightarrow> h1 + 1 < hd B')"
        using cB unfolding B canon_Cons2_iff .
      show ?thesis
      proof (cases "l1 = x + 1")
        case True
        have "ins_split A B x = x # h1 # B'" unfolding ins_split_def using Anil B True by simp
        moreover have "canon (x # h1 # B')" unfolding canon_Cons2_iff using cc x1 by simp
        moreover have "{x..h1} = insert x {l1..h1}" using True cc by auto
        ultimately show ?thesis using Anil B by simp
      next
        case False
        have "ins_split A B x = x # x # l1 # h1 # B'"
          unfolding ins_split_def using Anil B False by simp
        moreover have "canon (x # x # l1 # h1 # B')" using cB x1 False unfolding B by simp
        ultimately show ?thesis using Anil B by simp
      qed
    qed
  next
    case Ane: False
    obtain P l0 where A: "A = P @ [l0, last A]" and evP: "even (length P)"
      using canon_snoc_decomp[OF cA Ane] by blast
    define h0 where "h0 = last A"
    have A': "A = P @ [l0, h0]" using A unfolding h0_def .
    have bl: "butlast A = P @ [l0]" by (subst A') (simp add: butlast_append)
    have hx: "h0 < x" using lo Ane unfolding h0_def by simp
    have AB: "A @ B = P @ (l0 # h0 # B)" by (subst A') simp
    have cP: "canon P \<and> (P \<noteq> [] \<longrightarrow> last P + 1 < l0)" and c0: "canon (l0 # h0 # B)"
      using c unfolding AB canon_append[OF evP] by simp_all
    have l0h0: "l0 \<le> h0" and hB: "B \<noteq> [] \<longrightarrow> h0 + 1 < hd B"
      using c0 unfolding canon_Cons2_iff by simp_all
    have fin: "canon (l0 # h # C) \<Longrightarrow> canon (P @ (l0 # h # C))" for h C
      unfolding canon_append[OF evP] using cP by simp
    have sAB: "set_of (A @ B) = set_of P \<union> ({l0..h0} \<union> set_of B)"
      unfolding AB set_of_append[OF evP] by simp
    have sA: "set_of A = set_of P \<union> {l0..h0}"
      by (subst A') (simp add: set_of_append[OF evP])
    from Bcases show ?thesis
    proof
      assume Bnil: "B = []"
      show ?thesis
      proof (cases "h0 = x - 1")
        case True
        have "ins_split A B x = P @ (l0 # x # [])"
          unfolding ins_split_def bl using Ane Bnil True h0_def by simp
        moreover have "canon (P @ (l0 # x # []))" by (rule fin) (use l0h0 hx in simp)
        moreover have "{l0..x} = insert x {l0..h0}" using True l0h0 by auto
        ultimately show ?thesis by (simp add: sA set_of_append[OF evP] Bnil)
      next
        case False
        have "ins_split A B x = P @ (l0 # h0 # [x, x])"
          unfolding ins_split_def using Ane Bnil False h0_def by (subst (3) A') simp
        moreover have "canon (P @ (l0 # h0 # [x, x]))"
          by (rule fin) (use l0h0 hx False in simp)
        ultimately show ?thesis by (simp add: sA set_of_append[OF evP] Bnil)
      qed
    next
      assume "\<exists>l1 h1 B'. B = l1 # h1 # B'"
      then obtain l1 h1 B' where B: "B = l1 # h1 # B'" by blast
      have x1: "x < l1" using hi B by simp
      have cc: "l1 \<le> h1 \<and> canon B' \<and> (B' \<noteq> [] \<longrightarrow> h1 + 1 < hd B')"
        using cB unfolding B canon_Cons2_iff .
      have sB: "set_of B = {l1..h1} \<union> set_of B'" unfolding B by simp
      have h01: "h0 + 1 < l1" using hB B by simp
      show ?thesis
      proof (cases "h0 = x - 1")
        case c1: True
        show ?thesis
        proof (cases "l1 = x + 1")
          case c2: True
          have "ins_split A B x = P @ (l0 # h1 # B')"
            unfolding ins_split_def bl using Ane B c1 c2 h0_def by simp
          moreover have "canon (P @ (l0 # h1 # B'))"
            by (rule fin) (use l0h0 hx x1 cc in \<open>simp add: canon_Cons2_iff\<close>)
          moreover have "{l0..h1} = insert x ({l0..h0} \<union> {l1..h1})"
            using c1 c2 l0h0 cc by auto
          ultimately show ?thesis by (simp add: sAB sB set_of_append[OF evP] Un_assoc)
        next
          case c2: False
          have "ins_split A B x = P @ (l0 # x # B)"
            unfolding ins_split_def bl using Ane B c1 c2 h0_def by simp
          moreover have "canon (P @ (l0 # x # B))"
            by (rule fin) (use l0h0 hx x1 c2 cB B in \<open>simp add: canon_Cons2_iff\<close>)
          moreover have "{l0..x} = insert x {l0..h0}" using c1 l0h0 by auto
          ultimately show ?thesis by (simp add: sAB set_of_append[OF evP] Un_assoc)
        qed
      next
        case c1: False
        show ?thesis
        proof (cases "l1 = x + 1")
          case c2: True
          have "ins_split A B x = P @ (l0 # h0 # x # h1 # B')"
            unfolding ins_split_def using Ane B c1 c2 h0_def by (subst (3) A') simp
          moreover have "canon (P @ (l0 # h0 # x # h1 # B'))"
            by (rule fin) (use l0h0 hx x1 c1 cc in \<open>simp add: canon_Cons2_iff\<close>)
          moreover have "{x..h1} = insert x {l1..h1}" using c2 cc by auto
          ultimately show ?thesis by (simp add: sAB sB set_of_append[OF evP] Un_assoc)
        next
          case c2: False
          have "ins_split A B x = P @ (l0 # h0 # x # x # B)"
            unfolding ins_split_def using Ane B c1 c2 h0_def by (subst (4) A') simp
          moreover have "canon (P @ (l0 # h0 # x # x # B))"
            by (rule fin) (use l0h0 hx x1 c1 c2 cB B in \<open>simp add: canon_Cons2_iff\<close>)
          ultimately show ?thesis by (simp add: sAB set_of_append[OF evP] Un_assoc)
        qed
      qed
    qed
  qed
qed


lemma canon_le_last: "canon A \<Longrightarrow> y \<in> set_of A \<Longrightarrow> y \<le> last A"
proof (induction A rule: canon.induct)
  case (4 l h l' rest)
  have c': "canon (l' # rest)" using "4.prems"(1) by simp
  from "4.prems"(2) have "y \<in> {l..h} \<or> y \<in> set_of (l' # rest)" by simp
  then show ?case
  proof
    assume "y \<in> {l..h}"
    then have "y < l'" using "4.prems"(1) by simp
    moreover have "l' \<le> last (l' # rest)"
      using canon_sorted[OF c'] by (cases rest) auto
    ultimately show ?thesis by simp
  next
    assume "y \<in> set_of (l' # rest)"
    from "4.IH"[OF c' this] show ?thesis by simp
  qed
qed simp_all

lemma canon_ge_hd: "canon B \<Longrightarrow> y \<in> set_of B \<Longrightarrow> hd B \<le> y"
proof (cases B rule: set_of.cases)
  case (3 l h rest)
  assume "canon B" "y \<in> set_of B"
  then show ?thesis unfolding 3 using canon_min[of l h rest y] by simp
qed simp_all

lemma range_before_block_wf:
  assumes wf: "ranges_wf rs"
  shows "(range_before_block rs x = - 1 \<and> x \<in> set_of (ranges rs))
       \<or> (\<exists>A B. ranges rs = A @ B \<and> int (length A) = 2 * range_before_block rs x
            \<and> (A \<noteq> [] \<longrightarrow> last A < x) \<and> (B \<noteq> [] \<longrightarrow> x < hd B))"
proof -
  define rg where "rg = ranges rs"
  define n where "n = numranges rs"
  have len: "int (length rg) = 2 * n" and c: "canon rg"
    using wf unfolding ranges_wf_def rg_def n_def by simp_all
  have n0: "0 \<le> n" using len by simp
  define res where "res = range_before_block rs x"
  have res: "res = range_before_block_loop rg x 0 (n - 1)"
    unfolding res_def range_before_block_def rg_def n_def ..
  have post: "bisect_post rg n x res" unfolding res
    by (rule bisect_inv[OF canon_sorted[OF c] len]) (use n0 in simp_all)
  from post[unfolded bisect_post_def] show ?thesis
  proof
    assume m: "res = - 1 \<and> (\<exists>i. 0 \<le> i \<and> i < n \<and> rg ! nat (2 * i) \<le> x \<and> x \<le> rg ! nat (2 * i + 1))"
    then obtain i where i: "0 \<le> i" "i < n" "rg ! nat (2 * i) \<le> x" "x \<le> rg ! nat (2 * i + 1)"
      by blast
    have e0: "nat (2 * i) = 2 * nat i" and e1: "nat (2 * i + 1) = 2 * nat i + 1"
      using i(1) by auto
    have "2 * nat i + 1 < length rg" using i len by auto
    then have "x \<in> set_of rg" using i(3,4) unfolding e0 e1 by (rule set_of_nth)
    then show ?thesis using m unfolding res_def rg_def by simp
  next
    assume m: "0 \<le> res \<and> res \<le> n
        \<and> (\<forall>i. 0 \<le> i \<and> i < res \<longrightarrow> rg ! nat (2 * i + 1) < x)
        \<and> (\<forall>i. res \<le> i \<and> i < n \<longrightarrow> x < rg ! nat (2 * i))"
    from m have mlo: "\<forall>i. 0 \<le> i \<and> i < res \<longrightarrow> rg ! nat (2 * i + 1) < x"
      and mhi: "\<forall>i. res \<le> i \<and> i < n \<longrightarrow> x < rg ! nat (2 * i)"
      and mr: "0 \<le> res" "res \<le> n" by blast+
    define A where "A = take (nat (2 * res)) rg"
    define B where "B = drop (nat (2 * res)) rg"
    have AB: "rg = A @ B" unfolding A_def B_def by simp
    have lA: "int (length A) = 2 * res" unfolding A_def using mr len by auto
    have la: "last A < x" if "A \<noteq> []"
    proof -
      have r0: "0 < res" using that lA by (cases A) auto
      have "last A = A ! (length A - 1)" using that by (rule last_conv_nth)
      also have "\<dots> = rg ! (length A - 1)" unfolding AB using that by (simp add: nth_append)
      also have "length A - 1 = nat (2 * (res - 1) + 1)" using lA r0 by auto
      finally have e: "last A = rg ! nat (2 * (res - 1) + 1)" .
      have "0 \<le> res - 1 \<and> res - 1 < res" using r0 by simp
      then have "rg ! nat (2 * (res - 1) + 1) < x" by (rule mlo[rule_format])
      then show ?thesis unfolding e .
    qed
    have hb: "x < hd B" if "B \<noteq> []"
    proof -
      have rn: "res < n" using that lA len unfolding AB by (cases B) auto
      have "hd B = rg ! length A" unfolding AB using that by (simp add: nth_append hd_conv_nth)
      also have "length A = nat (2 * res)" using lA by auto
      finally have e: "hd B = rg ! nat (2 * res)" .
      have "res \<le> res \<and> res < n" using rn by simp
      then have "x < rg ! nat (2 * res)" by (rule mhi[rule_format])
      then show ?thesis unfolding e .
    qed
    show ?thesis using AB lA la hb unfolding res_def rg_def by blast
  qed
qed


lemma canon_sorted_disjoint: "canon rg \<Longrightarrow> sorted_disjoint rg"
  by (induction rg rule: canon.induct) auto

lemma split_not_mem:
  assumes c: "canon (A @ B)" and ev: "even (length A)"
    and lo: "A \<noteq> [] \<longrightarrow> last A < x" and hi: "B \<noteq> [] \<longrightarrow> x < hd B"
  shows "x \<notin> set_of (A @ B)"
proof
  assume "x \<in> set_of (A @ B)"
  then have d: "x \<in> set_of A \<or> x \<in> set_of B" unfolding set_of_append[OF ev] by simp
  have cA: "canon A" and cB: "canon B" using c canon_append[OF ev, of B] by simp_all
  from d show False
  proof
    assume m: "x \<in> set_of A"
    then have "A \<noteq> []" by auto
    with lo canon_le_last[OF cA m] show False by simp
  next
    assume m: "x \<in> set_of B"
    then have "B \<noteq> []" by auto
    with hi canon_ge_hd[OF cB m] show False by simp
  qed
qed

lemma add_to_ranges_old:
  assumes wf: "ranges_wf rs" and m: "x \<in> set_of (ranges rs)"
  shows "add_to_ranges rs x = rs"
proof -
  from range_before_block_wf[OF wf, of x] have "range_before_block rs x = - 1"
  proof
    assume "range_before_block rs x = - 1 \<and> x \<in> set_of (ranges rs)"
    then show ?thesis by simp
  next
    assume "\<exists>A B. ranges rs = A @ B \<and> int (length A) = 2 * range_before_block rs x
            \<and> (A \<noteq> [] \<longrightarrow> last A < x) \<and> (B \<noteq> [] \<longrightarrow> x < hd B)"
    then obtain A B where AB: "ranges rs = A @ B"
      and lA: "int (length A) = 2 * range_before_block rs x"
      and lo: "A \<noteq> [] \<longrightarrow> last A < x" and hi: "B \<noteq> [] \<longrightarrow> x < hd B" by blast
    have ev: "even (length A)" using lA by presburger
    have "canon (A @ B)" using wf unfolding ranges_wf_def AB by simp
    from split_not_mem[OF this ev lo hi] m show ?thesis unfolding AB by simp
  qed
  then show ?thesis unfolding add_to_ranges_def by simp
qed

lemma add_to_ranges_new:
  assumes wf: "ranges_wf rs" and m: "x \<notin> set_of (ranges rs)"
  shows "\<exists>R. add_to_ranges rs x =
              rs\<lparr>gotblocks := gotblocks rs + 1, ranges := R, numranges := int (length R) div 2\<rparr>
            \<and> canon R \<and> set_of R = insert x (set_of (ranges rs))"
proof -
  from range_before_block_wf[OF wf, of x] m
  obtain A B where AB: "ranges rs = A @ B"
      and lA: "int (length A) = 2 * range_before_block rs x"
      and lo: "A \<noteq> [] \<longrightarrow> last A < x" and hi: "B \<noteq> [] \<longrightarrow> x < hd B" by blast
  have evA: "even (length A)" using lA by presburger
  have c: "canon (A @ B)" and nr: "numranges rs * 2 = int (length (ranges rs))"
    using wf unfolding ranges_wf_def AB by simp_all
  have "even (length (A @ B))" using c by (rule canon_even)
  then have evB: "even (length B)" using evA by simp
  have eq: "add_to_ranges rs x =
           rs\<lparr>gotblocks := gotblocks rs + 1, ranges := ins_split A B x,
              numranges := int (length (ins_split A B x)) div 2\<rparr>"
    using AB lA refl nr evB by (rule add_to_ranges_split)
  have ok: "canon (ins_split A B x) \<and> set_of (ins_split A B x) = insert x (set_of (A @ B))"
    by (rule ins_split_ok[OF c evA]) (use lo hi in simp_all)
  show ?thesis using eq ok unfolding AB by blast
qed

lemma add_to_ranges_wf:
  assumes wf: "ranges_wf rs"
  shows "ranges_wf (add_to_ranges rs x)
       \<and> set_of (ranges (add_to_ranges rs x)) = insert x (set_of (ranges rs))"
proof (cases "x \<in> set_of (ranges rs)")
  case True
  show ?thesis unfolding add_to_ranges_old[OF wf True] using wf True by auto
next
  case False
  from add_to_ranges_new[OF wf False] obtain R where
    eq: "add_to_ranges rs x =
              rs\<lparr>gotblocks := gotblocks rs + 1, ranges := R, numranges := int (length R) div 2\<rparr>"
    and c: "canon R" and s: "set_of R = insert x (set_of (ranges rs))" by blast
  have "even (int (length R))" using canon_even[OF c] by simp
  then have "int (length R) div 2 * 2 = int (length R)" by simp
  then show ?thesis unfolding eq ranges_wf_def using c s by simp
qed

lemma add_to_ranges_commute:
  assumes wf: "ranges_wf rs"
  shows "add_to_ranges (add_to_ranges rs x) y = add_to_ranges (add_to_ranges rs y) x"
proof -
  note wx = add_to_ranges_wf[OF wf, of x] and wy = add_to_ranges_wf[OF wf, of y]
  show ?thesis
  proof (cases "x = y")
    case True then show ?thesis by simp
  next
    case ne: False
    show ?thesis
    proof (cases "x \<in> set_of (ranges rs)")
      case xin: True
      have "x \<in> set_of (ranges (add_to_ranges rs y))" using wy xin by simp
      then have "add_to_ranges (add_to_ranges rs y) x = add_to_ranges rs y"
        using wy by (intro add_to_ranges_old) simp_all
      then show ?thesis unfolding add_to_ranges_old[OF wf xin] by simp
    next
      case xout: False
      show ?thesis
      proof (cases "y \<in> set_of (ranges rs)")
        case yin: True
        have "y \<in> set_of (ranges (add_to_ranges rs x))" using wx yin by simp
        then have "add_to_ranges (add_to_ranges rs x) y = add_to_ranges rs x"
          using wx by (intro add_to_ranges_old) simp_all
        then show ?thesis unfolding add_to_ranges_old[OF wf yin] by simp
      next
        case yout: False
        from add_to_ranges_new[OF wf xout] obtain R1 where
          e1: "add_to_ranges rs x =
            rs\<lparr>gotblocks := gotblocks rs + 1, ranges := R1, numranges := int (length R1) div 2\<rparr>"
          by blast
        from add_to_ranges_new[OF wf yout] obtain R2 where
          e2: "add_to_ranges rs y =
            rs\<lparr>gotblocks := gotblocks rs + 1, ranges := R2, numranges := int (length R2) div 2\<rparr>"
          by blast
        have w1: "ranges_wf (add_to_ranges rs x)" and w2: "ranges_wf (add_to_ranges rs y)"
          using wx wy by simp_all
        have y1: "y \<notin> set_of (ranges (add_to_ranges rs x))" using wx yout ne by simp
        have x2: "x \<notin> set_of (ranges (add_to_ranges rs y))" using wy xout ne by simp
        from add_to_ranges_new[OF w1 y1] obtain R12 where
          e12: "add_to_ranges (add_to_ranges rs x) y =
            (add_to_ranges rs x)\<lparr>gotblocks := gotblocks (add_to_ranges rs x) + 1, ranges := R12,
               numranges := int (length R12) div 2\<rparr>"
          and c12: "canon R12"
          and s12: "set_of R12 = insert y (set_of (ranges (add_to_ranges rs x)))" by blast
        from add_to_ranges_new[OF w2 x2] obtain R21 where
          e21: "add_to_ranges (add_to_ranges rs y) x =
            (add_to_ranges rs y)\<lparr>gotblocks := gotblocks (add_to_ranges rs y) + 1, ranges := R21,
               numranges := int (length R21) div 2\<rparr>"
          and c21: "canon R21"
          and s21: "set_of R21 = insert x (set_of (ranges (add_to_ranges rs y)))" by blast
        have "set_of R12 = set_of R21" unfolding s12 s21 using wx wy by auto
        with c12 c21 have RR: "R12 = R21" by (rule canon_unique)
        show ?thesis unfolding e12 e21 RR unfolding e1 e2 by simp
      qed
    qed
  qed
qed

lemma add_to_ranges_idem:
  assumes wf: "ranges_wf rs"
  shows "add_to_ranges (add_to_ranges rs x) x = add_to_ranges rs x"
  using add_to_ranges_wf[OF wf, of x] by (intro add_to_ranges_old) simp_all


text \<open>
  Claim C9. On a well-formed list of known ranges, marking block \<open>x\<close> and then block
  \<open>y\<close> gives the same state as marking \<open>y\<close> and then \<open>x\<close>; marking \<open>x\<close> twice gives
  the same state as marking it once; and the list stays well formed, hence sorted
  and disjoint.
\<close>

theorem add_to_ranges_commutative_idempotent:
  "ranges_wf rs \<Longrightarrow>
     add_to_ranges (add_to_ranges rs x) y = add_to_ranges (add_to_ranges rs y) x
   \<and> add_to_ranges (add_to_ranges rs x) x = add_to_ranges rs x
   \<and> ranges_wf (add_to_ranges rs x)
   \<and> sorted_disjoint (ranges (add_to_ranges rs x))"
proof -
  assume wf: "ranges_wf rs"
  have w: "ranges_wf (add_to_ranges rs x)" using add_to_ranges_wf[OF wf, of x] by simp
  then have "canon (ranges (add_to_ranges rs x))" unfolding ranges_wf_def by simp
  then have "sorted_disjoint (ranges (add_to_ranges rs x))" by (rule canon_sorted_disjoint)
  then show ?thesis
    using add_to_ranges_commute[OF wf, of x y] add_to_ranges_idem[OF wf, of x] w by simp
qed

theorem add_to_ranges_commutative_idempotent_witness:
  "ranges_wf example_ranges_state
   \<and> add_to_ranges (add_to_ranges example_ranges_state 3) 5
       = add_to_ranges (add_to_ranges example_ranges_state 5) 3
   \<and> add_to_ranges (add_to_ranges example_ranges_state 3) 3 = add_to_ranges example_ranges_state 3
   \<and> ranges_wf (add_to_ranges example_ranges_state 3)
   \<and> sorted_disjoint (ranges (add_to_ranges example_ranges_state 3))"
proof -
  have h: "ranges_wf example_ranges_state"
    by (simp add: example_ranges_state_def ranges_wf_def)
  show ?thesis using h add_to_ranges_commutative_idempotent[OF h, of 3 5] by simp
qed


section \<open>Evaluation of the examples\<close>

lemmas js_defs = js_at_def js_and_def js_shl_def js_xor_def js_or_def js_sar_def js_shr_def
  to_int32_def to_uint32_def js_trunc_def js_clamp_def subarray_def subarray_from_def

lemma weak_sums_of_the_blocks:
  "rcksum_calc_rsum_block [1, 2, 3, 4] 4 = Some \<lparr>a = 10, b = 20\<rparr>
   \<and> rcksum_calc_rsum_block [5, 6, 7, 8] 4 = Some \<lparr>a = 26, b = 60\<rparr>"
  by code_simp

lemma blockshift_of_4:
  "(case find (\<lambda>i. (4::int) = js_shl 1 i) (map int [0..<32]) of Some i \<Rightarrow> i | None \<Rightarrow> 0) = 2"
  by code_simp

lemma one_block_state:
  "one_block c = Inr
     \<lparr>cur_r = (\<lparr>a = 10, b = 20\<rparr>, \<lparr>a = 0, b = 0\<rparr>), blocks = 1, blocksize = 4,
      blockshift = 2, rsum_a_mask = 65535, rsum_bits = 32, checksum_bytes = 16,
      seq_matches = 1, context = 4, skip = 0, rover = None,
      next_match = None, next_known = 0, hashmask = 31,
      blockhashes = [\<lparr>next = None, r = \<lparr>a = 10, b = 20\<rparr>, checksum = Some c\<rparr>, empty_entry],
      rsum_hash = Some ((replicate 32 None)[4 := Some 0]),
      bithash = Some ((replicate 256 0)[8 := 16]), bithashmask = 255,
      numranges = 0, ranges = [], gotblocks = 0,
      stats = \<lparr>hashhit = 0, weakhit = 0, stronghit = 0, checksummed = 0\<rparr>,
      filename = Some ''rcksum-000000'', fd = Some []\<rparr>"
  unfolding one_block_def rcksum_init_def blockshift_of_4
  by (simp add: rcksum_add_target_block_def js_defs empty_entry_def build_hash_size.simps
     build_hash_def build_hash_step_def calc_rhash_def Let_def numeral_2_eq_2)

section \<open>The strong check of the matcher\<close>

text \<open>
  With a single block to check, the loop of the strong comparison leaves \<^verbatim>\<open>ok\<close> true
  exactly when the whole digest of the window block differs from the stored
  checksum.
\<close>

lemma strong_check_single:
  assumes "js_at (blockhashes z) bid = Some en" and "onlyone \<or> seq_matches z \<le> 1"
  shows "strong_check md4 z data onlyone bid [] 0 =
           Inr (checksum en \<noteq> Some (md4 (subarray data 0 (blocksize z))),
                if checksum en = Some (md4 (subarray data 0 (blocksize z))) then 0 else 1,
                [md4 (subarray data 0 (blocksize z))],
                z\<lparr>stats := (stats z)\<lparr>checksummed := checksummed (stats z) + 1\<rparr>\<rparr>)"
  using assms
  by (subst strong_check.simps) (auto simp: Let_def rcksum_calc_checksum_def js_at_def)

lemma window_accepted_on_equal_digest:
  "window_result md4 (md4 [1, 2, 3, 4]) = Some (0, Some [], [])"
  by code_simp

lemma window_accepted_on_other_digest:
  "c \<noteq> md4 [1, 2, 3, 4] \<Longrightarrow> window_result md4 c = Some (1, Some [1, 2, 3, 4], [0, 0])"
  unfolding window_result_def one_block_state
  by (simp add: lookup_chain_def lookup_hash_def js_defs check_checksums_on_hash_chain_def
      check_chain.simps check_candidate_def get_HE_blockid_def next_known_block_def
      strong_check.simps range_before_block_loop.simps write_blocks_write.simps
      write_blocks_mark.simps
      range_before_block_def write_blocks_def fd_write_def pwrite_def
      remove_block_from_hash_def remove_walk.simps calc_rhash_def add_to_ranges_def splice_ins_def
      rcksum_calc_checksum_def Let_def empty_entry_def)

text \<open>
  Claim C1, which the code does not meet. For every digest function and every stored
  checksum \<open>c\<close> of the one block of the target, the matcher at a window whose weak
  sums match obtains no block and writes nothing when \<open>c\<close> is the digest of the
  window, and writes the window as block 0 for every other \<open>c\<close>: it accepts on
  inequality of the whole digest, not on equality of the truncated one.
\<close>

theorem matcher_accepts_on_strong_mismatch:
  "window_result md4 c =
     (if c = md4 [1, 2, 3, 4] then Some (0, Some [], [])
      else Some (1, Some [1, 2, 3, 4], [0, 0]))"
  using window_accepted_on_equal_digest [of md4] window_accepted_on_other_digest [of c md4]
  by simp

section \<open>Blocks written stay in the hash chains\<close>

lemma remove_block_from_hash_keeps_chains:
  "remove_block_from_hash z bid = Some (Inr z') \<Longrightarrow>
     rsum_hash z' = rsum_hash z \<and> blockhashes z' = blockhashes z \<and> bithash z' = bithash z"
  by (auto simp: remove_block_from_hash_def split: option.splits sum.splits if_splits)

text \<open>
  Claim C2, which the code does not meet. Block 0 of the one-block target is
  received with the right content and accepted: it is written, it is a known block,
  and it is still the head of its hash chain, where the lookup of a matching window
  finds it again.
\<close>

theorem written_block_stays_in_hash_chain:
  "(case one_block (subarray (md4 [1, 2, 3, 4]) 0 16) of
      Inl e \<Rightarrow> False
    | Inr z \<Rightarrow>
       (case rcksum_submit_blocks md4 z [1, 2, 3, 4] 0 0 of
          Some (Inr (z', rc)) \<Rightarrow>
            rc = 0 \<and> fd z' = Some [1, 2, 3, 4] \<and> ranges z' = [0, 0]
            \<and> rsum_hash z' = rsum_hash z \<and> lookup_chain z' = Some 0
        | _ \<Rightarrow> False))"
  by code_simp

section \<open>The hash of a block\<close>

lemma calc_rhash_one_match:
  "\<not> seq_matches z > 1 \<Longrightarrow> js_at e ei = Some en \<Longrightarrow> js_at e 0 = Some e0 \<Longrightarrow>
     calc_rhash z e ei = Inr (js_xor (b (r en)) (js_shl (js_and (a (r e0)) (rsum_a_mask z)) 3))"
  by (simp add: calc_rhash_def)

text \<open>
  Claim C3, which the code does not meet. In the two-block target with one
  sequential match, block 1 has weak sums \<open>(26, 60)\<close>. Its hash by the claim's
  formula, and the hash the matcher computes for a window with these sums, is 236;
  \<^verbatim>\<open>calc_rhash\<close> gives 108 for it, from the \<open>a\<close> of block 0, and the matcher's lookup
  of such a window finds no chain.
\<close>

theorem calc_rhash_uses_first_block:
  "(case two_blocks [] [] of
      Inl e \<Rightarrow> False
    | Inr z \<Rightarrow>
        calc_rhash z (blockhashes z) 1 = Inr 108
        \<and> js_xor 60 (js_shl (js_and 26 (rsum_a_mask z)) 3) = 236
        \<and> lookup_hash (at_window z \<lparr>a = 26, b = 60\<rparr>) = 236
        \<and> lookup_chain (at_window z \<lparr>a = 26, b = 60\<rparr>) = None
        \<and> lookup_chain (at_window z \<lparr>a = 10, b = 20\<rparr>) = Some 0)"
  by code_simp

section \<open>The byte ranges still needed\<close>

lemma needed_block_ranges_none_known:
  "numranges rs = 0 \<Longrightarrow> blocks rs \<le> 2147483647 \<Longrightarrow>
   rcksum_needed_block_ranges rs 0 2147483647 = Inr [0, blocks rs]"
  by (simp add: rcksum_needed_block_ranges_def)

lemma needed_block_ranges_all_known:
  "ranges rs = [0, blocks rs - 1] \<Longrightarrow> numranges rs = 1 \<Longrightarrow> 0 < blocks rs \<Longrightarrow>
   blocks rs \<le> 2147483647 \<Longrightarrow>
   rcksum_needed_block_ranges rs 0 2147483647 = Inr [blocks rs, blocks rs]"
  by (simp add: rcksum_needed_block_ranges_def js_at_def Let_def)

lemma js_sar_2_1: "js_sar 2 1 = 1"
  by (simp add: js_sar_def to_int32_def)

lemma needed_byte_ranges_of_empty_session:
  "zs_rs zs = Some rs \<Longrightarrow> numranges rs = 0 \<Longrightarrow> blocks rs \<le> 2147483647 \<Longrightarrow>
   zsync_needed_byte_ranges zs = Inr [0, blocks rs * zs_blocksize zs - 1]"
  by (simp add: zsync_needed_byte_ranges_def needed_block_ranges_none_known js_sar_2_1)

text \<open>
  Claim C4, which the code does not meet in its second half. On a session in which
  every block is known (the one range from 0 to the last block), the result is not
  the empty list: it is one pair, from the byte after the last block to the byte
  before it.
\<close>

theorem needed_byte_ranges_of_complete_session:
  "zs_rs zs = Some rs \<Longrightarrow> ranges rs = [0, blocks rs - 1] \<Longrightarrow> numranges rs = 1 \<Longrightarrow>
   0 < blocks rs \<Longrightarrow> blocks rs \<le> 2147483647 \<Longrightarrow>
   zsync_needed_byte_ranges zs
     = Inr [blocks rs * zs_blocksize zs, blocks rs * zs_blocksize zs - 1]"
  by (simp add: zsync_needed_byte_ranges_def needed_block_ranges_all_known js_sar_2_1)

lemma example_session_complete:
  "zs_rs (mark_known [0, 1, 2] example_session)
     = Some ((the (rcksum_init 3 4 4 16 1 ''rcksum-000000''))
               \<lparr>gotblocks := 3, ranges := [0, 2], numranges := 1\<rparr>)"
  by code_simp

theorem needed_byte_ranges_of_complete_session_witness:
  "zsync_needed_byte_ranges example_session = Inr [0, 11]
   \<and> zsync_needed_byte_ranges (mark_known [0, 1, 2] example_session) = Inr [12, 11]"
proof -
  have e: "zsync_needed_byte_ranges example_session = Inr [0, 11]" by code_simp
  have b: "blocks ((the (rcksum_init 3 4 4 16 1 ''rcksum-000000''))
               \<lparr>gotblocks := 3, ranges := [0, 2], numranges := 1\<rparr>) = 3"
    by code_simp
  have s: "zs_blocksize (mark_known [0, 1, 2] example_session) = 4" by code_simp
  show ?thesis
    using needed_byte_ranges_of_complete_session [OF example_session_complete] e
    by (simp add: b s)
qed

section \<open>Reading the checksum table\<close>

text \<open>
  Claim C5, which the code does not meet. For the record bytes \<open>01 02 03 04\<close> with
  four weak-sum bytes the claim gives \<open>weak.a = 258\<close> and \<open>weak.b = 772\<close>; a
  little-endian host stores \<open>a = 513\<close>, a big-endian host \<open>b = 1027\<close>. For the record
  bytes \<open>AA 03 04\<close> with three weak-sum bytes the claim gives \<open>weak.a = 170\<close>; a
  little-endian host stores \<open>a = 0\<close>.
\<close>

theorem read_blocksums_byte_order:
  "stored_weak (zsync_read_blocksums True (example_session\<lparr>zs_blocks := 1\<rparr>)
      (control_tail ([1, 2, 3, 4] @ replicate 16 7)) 4 16 1 ''rcksum-000000'') = Some (513, 772)
   \<and> stored_weak (zsync_read_blocksums False (example_session\<lparr>zs_blocks := 1\<rparr>)
      (control_tail ([1, 2, 3, 4] @ replicate 16 7)) 4 16 1 ''rcksum-000000'') = Some (258, 1027)
   \<and> stored_weak (zsync_read_blocksums True (example_session\<lparr>zs_blocks := 1\<rparr>)
      (control_tail ([170, 3, 4] @ replicate 16 7)) 3 16 1 ''rcksum-000000'') = Some (0, 772)
   \<and> stored_weak (zsync_read_blocksums False (example_session\<lparr>zs_blocks := 1\<rparr>)
      (control_tail ([170, 3, 4] @ replicate 16 7)) 3 16 1 ''rcksum-000000'') = Some (170, 1027)"
  by code_simp

section \<open>The download loop\<close>

text \<open>
  Claim C7, which the code does not meet. With two URLs, a transfer that always
  fails and the random choices 0 and 0, the loop fetches from the first URL, which
  fails, fetches from it again, and ends: the second URL is never tried.
\<close>

theorem failed_url_is_fetched_again:
  "fetch_remaining_blocks always_failing [0, 0] example_session
     = Some (Inr (example_session, [0, 0]))"
  by code_simp

section \<open>Completion of a download\<close>

text \<open>The pieces read by \<^verbatim>\<open>zsync_sha1\<close> make up the whole file.\<close>

lemma sha1_read_loop_all: "sha1_read_loop f offset fed = fed @ drop offset f"
proof (induction f offset fed rule: sha1_read_loop.induct)
  case (1 f offset fed)
  show ?case
  proof (cases "min 4096 (length f - offset) = 0")
    case True
    then have d: "drop offset f = []" by simp
    have "sha1_read_loop f offset fed = fed"
      by (simp only: sha1_read_loop.simps[of f offset fed] True refl if_True)
    then show ?thesis by (simp add: d)
  next
    case False
    have "sha1_read_loop f offset fed
            = sha1_read_loop f (offset + min 4096 (length f - offset))
                (fed @ take (min 4096 (length f - offset)) (drop offset f))"
      by (simp only: sha1_read_loop.simps[of f offset fed] False if_False)
    also have "\<dots> = (fed @ take (min 4096 (length f - offset)) (drop offset f))
                      @ drop (offset + min 4096 (length f - offset)) f"
      using False by (rule "1.IH")
    also have "\<dots> = fed @ drop offset f"
    proof -
      have "drop (offset + min 4096 (length f - offset)) f
              = drop (min 4096 (length f - offset)) (drop offset f)"
        by (simp only: drop_drop add.commute)
      then show ?thesis by (simp only: append_assoc append_take_drop_id)
    qed
    finally show ?thesis .
  qed
qed

lemma length_truncate_file: "0 \<le> len \<Longrightarrow> length (truncate_file f len) = nat len"
  by (simp add: truncate_file_def)

lemma zsync_complete_named:
  assumes "zs_rs zs = Some rs" "fd rs = Some content" "0 \<le> zs_filelen zs"
    and "zs_cur_filename zs = Some p" "filename rs = None"
  shows "zsync_complete sha1_hex zs =
           Inr (zs\<lparr>zs_rs := None\<rparr>, truncate_file content (zs_filelen zs),
                if zs_checksum zs \<noteq> None \<and> zs_checksum_method zs = ''SHA-1''
                then (if zs_checksum zs = Some (sha1_hex (truncate_file content (zs_filelen zs)))
                      then 1 else - 1)
                else 0)"
  using assms
  by (simp add: zsync_complete_def zsync_cur_filename_def rcksum_end_def Let_def
        zsync_sha1_def sha1_read_loop_all)

lemma zsync_complete_unnamed:
  assumes "zs_rs zs = Some rs" "fd rs = Some content" "0 \<le> zs_filelen zs"
    and "zs_cur_filename zs = None" "filename rs = Some p"
  shows "zsync_complete sha1_hex zs =
           Inr (zs\<lparr>zs_cur_filename := Some p, zs_rs := None\<rparr>,
                truncate_file content (zs_filelen zs),
                if zs_checksum zs \<noteq> None \<and> zs_checksum_method zs = ''SHA-1''
                then (if zs_checksum zs = Some (sha1_hex (truncate_file content (zs_filelen zs)))
                      then 1 else - 1)
                else 0)"
  using assms
  by (simp add: zsync_complete_def zsync_cur_filename_def rcksum_filename_def rcksum_end_def
        Let_def zsync_sha1_def sha1_read_loop_all)

text \<open>
  C8: \<^verbatim>\<open>zsync_complete\<close> first cuts the scratch file to exactly the target length.
  Then, with a \<^verbatim>\<open>SHA-1\<close> header in the control file, it returns 1 (verified) exactly
  when the SHA-1 digest of the cut file equals the header's value and -1 (corrupt)
  when it differs; without such a header it returns 0 (unchecked) and does not fail.
\<close>

theorem zsync_complete_truncates_then_verifies:
  assumes "complete_pre zs rs content"
  shows "\<exists>zs'. zsync_complete sha1_hex zs =
            Inr (zs', truncate_file content (zs_filelen zs),
                 if zs_checksum zs = None then 0
                 else if zs_checksum zs = Some (sha1_hex (truncate_file content (zs_filelen zs)))
                 then 1 else - 1)
         \<and> length (truncate_file content (zs_filelen zs)) = nat (zs_filelen zs)"
proof -
  from assms have rs: "zs_rs zs = Some rs" and fd: "fd rs = Some content"
    and len: "0 \<le> zs_filelen zs"
    and nm: "(zs_cur_filename zs = None) = (filename rs \<noteq> None)"
    and ck: "zs_checksum zs = None \<or> zs_checksum_method zs = ''SHA-1''"
    unfolding complete_pre_def by simp_all
  let ?disk = "truncate_file content (zs_filelen zs)"
  let ?rc = "if zs_checksum zs = None then 0
             else if zs_checksum zs = Some (sha1_hex ?disk) then 1 else - 1 :: int"
  have rc: "(if zs_checksum zs \<noteq> None \<and> zs_checksum_method zs = ''SHA-1''
             then (if zs_checksum zs = Some (sha1_hex ?disk) then 1 else - 1) else 0) = ?rc"
    using ck by auto
  have "\<exists>zs'. zsync_complete sha1_hex zs = Inr (zs', ?disk, ?rc)"
  proof (cases "zs_cur_filename zs")
    case None
    then obtain p where p: "filename rs = Some p" using nm by auto
    show ?thesis
      unfolding zsync_complete_unnamed[OF rs fd len None p] rc by blast
  next
    case (Some p)
    then have fn: "filename rs = None" using nm by auto
    show ?thesis
      unfolding zsync_complete_named[OF rs fd len Some fn] rc by blast
  qed
  then show ?thesis using len by (simp add: length_truncate_file)
qed

lemma complete_session_pre:
  "complete_pre (complete_session ck) (the (zs_rs (complete_session ck)))
     [1, 2, 3, 4, 5, 6, 7, 8, 9, 10, 11, 12]"
  by (simp add: complete_pre_def complete_session_def example_session_def rcksum_init_def js_defs)

lemma complete_session_disk:
  "truncate_file [1, 2, 3, 4, 5, 6, 7, 8, 9, 10, 11, 12] (zs_filelen (complete_session ck))
     = [1, 2, 3, 4, 5, 6, 7, 8, 9, 10]"
  by (simp add: complete_session_def example_session_def truncate_file_def)

lemma example_hex_disk: "example_hex [1, 2, 3, 4, 5, 6, 7, 8, 9, 10 :: byte] = ''123456789a''"
  by code_simp

theorem zsync_complete_truncates_then_verifies_witness:
  "(\<exists>zs'. zsync_complete example_hex (complete_session (Some ''123456789a''))
            = Inr (zs', [1, 2, 3, 4, 5, 6, 7, 8, 9, 10], 1))
   \<and> (\<exists>zs'. zsync_complete example_hex (complete_session (Some ''123456789b''))
            = Inr (zs', [1, 2, 3, 4, 5, 6, 7, 8, 9, 10], - 1))
   \<and> (\<exists>zs'. zsync_complete example_hex (complete_session None)
            = Inr (zs', [1, 2, 3, 4, 5, 6, 7, 8, 9, 10], 0))"
  using zsync_complete_truncates_then_verifies
          [OF complete_session_pre [of "Some ''123456789a''"], of example_hex]
        zsync_complete_truncates_then_verifies
          [OF complete_session_pre [of "Some ''123456789b''"], of example_hex]
        zsync_complete_truncates_then_verifies
          [OF complete_session_pre [of None], of example_hex]
  unfolding complete_session_disk example_hex_disk
  by (simp add: complete_session_def)

section \<open>A chunk that does not continue the pending block\<close>







text \<open>
  The receiver holds \<open>[9, 9]\<close> for block 0; the chunk \<open>[0, 5, 6, 7, 8]\<close> arrives at
  offset 3. Block 1 is written, block 0 stays unknown, and the call returns 0.
\<close>

lemma pending_block_example:
  "receive_summary
     (zsync_receive_data example_digest (pending_receiver [9, 9, 0, 0]) [0, 5, 6, 7, 8] 3 5)
     = Some (Some [0, 0, 0, 0, 5, 6, 7, 8], [1, 1], [9, 9, 0, 0], 8, 0)"
  by code_simp

end
